theory Spec2Isabelle
  imports Main "HOL-Library.Sublist"
begin

section \<open>Code units and character classes\<close>

text \<open>
  A JavaScript string is a sequence of 16-bit code units. The model covers the texts whose
  code units are below 256 and writes them as \<^typ>\<open>string\<close>. Every pattern of
  \<^verbatim>\<open>server.js\<close> is written with ASCII characters only, so a code unit above 127 can only
  be matched by \<^verbatim>\<open>\s\<close> (the no-break space 0xA0) or by \<^verbatim>\<open>[\s\S]\<close>.
\<close>

definition isUpper :: "char \<Rightarrow> bool" where
  \<comment> \<open>the class \<^verbatim>\<open>[A-Z]\<close> as written\<close>
  "isUpper ch = (ch \<in> set ''ABCDEFGHIJKLMNOPQRSTUVWXYZ'')"

definition isLower :: "char \<Rightarrow> bool" where
  \<comment> \<open>the class \<^verbatim>\<open>[a-z]\<close> as written\<close>
  "isLower ch = (ch \<in> set ''abcdefghijklmnopqrstuvwxyz'')"

definition isDigit :: "char \<Rightarrow> bool" where
  \<comment> \<open>the class \<^verbatim>\<open>\d\<close>\<close>
  "isDigit ch = (ch \<in> set ''0123456789'')"

definition isSpace :: "char \<Rightarrow> bool" where
  \<comment> \<open>the class \<^verbatim>\<open>\s\<close> and the characters removed by \<^verbatim>\<open>trim()\<close>, below 256:
      tab, line feed, vertical tab, form feed, carriage return, space, no-break space\<close>
  "isSpace ch = (ch \<in> set [CHR 0x09, CHR 0x0A, CHR 0x0B, CHR 0x0C, CHR 0x0D, CHR 0x20, CHR 0xA0])"

definition isAny :: "char \<Rightarrow> bool" where
  \<comment> \<open>the class \<^verbatim>\<open>[\s\S]\<close>\<close>
  "isAny ch = True"

definition isColonDash :: "char \<Rightarrow> bool" where
  \<comment> \<open>the class \<^verbatim>\<open>[:\-]\<close>\<close>
  "isColonDash ch = (ch \<in> set '':-'')"

definition isSep :: "char \<Rightarrow> bool" where
  \<comment> \<open>the class \<^verbatim>\<open>[-.\s]\<close>\<close>
  "isSep ch = (ch \<in> set ''-.'' \<or> isSpace ch)"

definition isLocal :: "char \<Rightarrow> bool" where
  \<comment> \<open>the class \<^verbatim>\<open>[a-zA-Z0-9._%+-]\<close>\<close>
  "isLocal ch = (isLower ch \<or> isUpper ch \<or> isDigit ch \<or> ch \<in> set ''._%+-'')"

definition isDomain :: "char \<Rightarrow> bool" where
  \<comment> \<open>the class \<^verbatim>\<open>[a-zA-Z0-9.-]\<close>\<close>
  "isDomain ch = (isLower ch \<or> isUpper ch \<or> isDigit ch \<or> ch \<in> set ''.-'')"

definition isAlpha :: "char \<Rightarrow> bool" where
  \<comment> \<open>the class \<^verbatim>\<open>[a-zA-Z]\<close>\<close>
  "isAlpha ch = (isLower ch \<or> isUpper ch)"

definition toUpper :: "char \<Rightarrow> char" where
  \<comment> \<open>Canonicalize of the \<^verbatim>\<open>i\<close> flag on the characters the patterns can meet: ASCII
      letters go to upper case, every other code unit below 256 never becomes ASCII\<close>
  "toUpper ch =
     (case map_of (zip ''abcdefghijklmnopqrstuvwxyz'' ''ABCDEFGHIJKLMNOPQRSTUVWXYZ'') ch of
        Some u \<Rightarrow> u | None \<Rightarrow> ch)"

definition toLower :: "char \<Rightarrow> char" where
  "toLower ch =
     (case map_of (zip ''ABCDEFGHIJKLMNOPQRSTUVWXYZ'' ''abcdefghijklmnopqrstuvwxyz'') ch of
        Some u \<Rightarrow> u | None \<Rightarrow> ch)"

definition eqI :: "char \<Rightarrow> char \<Rightarrow> bool" where
  \<comment> \<open>a pattern character against an input character under the \<^verbatim>\<open>i\<close> flag\<close>
  "eqI a b = (if a = b then True else toUpper a = toUpper b)"

definition clsI :: "(char \<Rightarrow> bool) \<Rightarrow> char \<Rightarrow> bool" where
  \<comment> \<open>a class against an input character under the \<^verbatim>\<open>i\<close> flag: some member of the class
      has the canonical form of the input character\<close>
  "clsI p ch = (if p ch then True else if p (toUpper ch) then True else p (toLower ch))"

section \<open>The regular expressions of the source, and how JavaScript matches them\<close>

text \<open>
  Every regular expression literal of \<^verbatim>\<open>server.js\<close> carries the \<^verbatim>\<open>i\<close> flag and no other,
  so the matcher below is the case-insensitive one and \<^verbatim>\<open>$\<close> is the end of the input.
\<close>

datatype re =
    Lit string                        \<comment> \<open>a run of pattern characters\<close>
  | Cls "char \<Rightarrow> bool"              \<comment> \<open>a character class\<close>
  | Seq re re
  | Alt re re                         \<comment> \<open>\<^verbatim>\<open>a|b\<close>, the left alternative first\<close>
  | Rep nat "nat option" bool re      \<comment> \<open>\<^verbatim>\<open>{min,max}\<close>; \<open>None\<close> is no upper bound; \<open>True\<close> is greedy\<close>
  | Grp nat re                        \<comment> \<open>capturing group number \<open>n\<close>\<close>
  | Ahead re                          \<comment> \<open>\<^verbatim>\<open>(?=r)\<close>\<close>
  | Eoi                               \<comment> \<open>\<^verbatim>\<open>$\<close>\<close>

type_synonym caps = "(nat \<times> string) list"

fun depth :: "re \<Rightarrow> nat" where
  "depth (Lit w) = 0"
| "depth (Cls p) = 0"
| "depth (Seq a b) = Suc (depth a + depth b)"
| "depth (Alt a b) = Suc (depth a + depth b)"
| "depth (Rep mn mx g r) = Suc (depth r)"
| "depth (Grp n r) = Suc (depth r)"
| "depth (Ahead r) = Suc (depth r)"
| "depth Eoi = 0"

fun repMin :: "re \<Rightarrow> nat" where
  "repMin (Rep mn mx g r) = mn"
| "repMin r = 0"

fun lit :: "string \<Rightarrow> string \<Rightarrow> string option" where
  "lit [] s = Some s"
| "lit (a # w) [] = None"
| "lit (a # w) (x # s) = (if eqI a x then lit w s else None)"

text \<open>
  \<open>m r s c\<close> lists, in the order in which the backtracking matcher of ECMAScript tries
  them, every way in which \<open>r\<close> matches a prefix of the input \<open>s\<close> with the captures \<open>c\<close>
  on entry: each result is the input that is left and the captures made. The match that
  JavaScript reports is the first result. A repetition follows RepeatMatcher: with
  \<open>min = 0\<close> an iteration that consumes nothing is dropped; a greedy repetition tries one
  more iteration before it tries to stop, a lazy one stops first.
\<close>

function m :: "re \<Rightarrow> string \<Rightarrow> caps \<Rightarrow> (string \<times> caps) list" where
  "m (Lit w) s c = (case lit w s of None \<Rightarrow> [] | Some s' \<Rightarrow> [(s', c)])"
| "m (Cls p) s c = (case s of [] \<Rightarrow> [] | x # xs \<Rightarrow> if clsI p x then [(xs, c)] else [])"
| "m (Seq a b) s c = concat (map (\<lambda>y. m b (fst y) (snd y)) (m a s c))"
| "m (Alt a b) s c = m a s c @ m b s c"
| "m (Grp n r) s c =
     map (\<lambda>y. (fst y, (n, take (length s - length (fst y)) s) # snd y)) (m r s c)"
| "m (Ahead r) s c = (case m r s c of [] \<Rightarrow> [] | y # ys \<Rightarrow> [(s, snd y)])"
| "m Eoi s c = (if s = [] then [(s, c)] else [])"
| "m (Rep mn mx g r) s c =
     (if mx = Some 0 then [(s, c)]
      else if mn \<noteq> 0
      then concat (map (\<lambda>y. m (Rep (mn - 1) (map_option (\<lambda>k. k - 1) mx) g r) (fst y) (snd y))
                       (m r s c))
      else if g
      then concat (map (\<lambda>y. if length (fst y) < length s
                              then m (Rep 0 (map_option (\<lambda>k. k - 1) mx) g r) (fst y) (snd y)
                              else [])
                       (m r s c)) @ [(s, c)]
      else (s, c) # concat (map (\<lambda>y. if length (fst y) < length s
                              then m (Rep 0 (map_option (\<lambda>k. k - 1) mx) g r) (fst y) (snd y)
                              else [])
                       (m r s c)))"
  by pat_completeness auto
termination
  by (relation "measures [\<lambda>(r, s, c). depth r, \<lambda>(r, s, c). repMin r, \<lambda>(r, s, c). length s]")
     auto

record rmatch =
  index :: nat       \<comment> \<open>where the match starts\<close>
  whole :: string    \<comment> \<open>element 0 of the match array\<close>
  groups :: caps     \<comment> \<open>the groups that took part, the last capture first\<close>

definition grp :: "rmatch \<Rightarrow> nat \<Rightarrow> string option" where
  \<comment> \<open>element \<open>k\<close> of the match array; \<open>None\<close> is \<^verbatim>\<open>undefined\<close>\<close>
  "grp mt k = map_of (groups mt) k"

text \<open>
  \<^verbatim>\<open>text.match(re)\<close> for a regular expression without the \<^verbatim>\<open>g\<close> flag: the start positions
  are tried from the left, the end of the text included; \<open>None\<close> is \<^verbatim>\<open>null\<close>.
\<close>

fun exec :: "re \<Rightarrow> string \<Rightarrow> nat \<Rightarrow> rmatch option" where
  "exec r s i =
     (case m r s [] of
        y # ys \<Rightarrow> Some \<lparr>index = i, whole = take (length s - length (fst y)) s, groups = snd y\<rparr>
      | [] \<Rightarrow> (case s of [] \<Rightarrow> None | x # t \<Rightarrow> exec r t (Suc i)))"

definition match :: "string \<Rightarrow> re \<Rightarrow> rmatch option" where
  "match s r = exec r s 0"

definition replace :: "string \<Rightarrow> re \<Rightarrow> string" where
  \<comment> \<open>\<^verbatim>\<open>s.replace(re, '')\<close>: the first match is cut out\<close>
  "replace s r =
     (case match s r of
        None \<Rightarrow> s
      | Some mt \<Rightarrow> take (index mt) s @ drop (index mt + length (whole mt)) s)"

definition trim :: "string \<Rightarrow> string" where
  "trim s = rev (dropWhile isSpace (rev (dropWhile isSpace s)))"

fun split :: "char \<Rightarrow> string \<Rightarrow> string list" where
  \<comment> \<open>\<^verbatim>\<open>s.split(d)\<close> for a separator of one character; never empty\<close>
  "split d [] = [[]]"
| "split d (x # xs) =
     (if x = d then [] # split d xs
      else (case split d xs of [] \<Rightarrow> [[x]] | y # ys \<Rightarrow> (x # y) # ys))"

definition star :: "re \<Rightarrow> re" where
  "star r = Rep 0 None True r"

definition lazyStar :: "re \<Rightarrow> re" where
  "lazyStar r = Rep 0 None False r"

definition plus :: "re \<Rightarrow> re" where
  "plus r = Rep 1 None True r"

definition opt :: "re \<Rightarrow> re" where
  "opt r = Rep 0 (Some 1) True r"

definition exactly :: "nat \<Rightarrow> re \<Rightarrow> re" where
  "exactly n r = Rep n (Some n) True r"

fun seqs :: "re list \<Rightarrow> re" where
  "seqs [] = Lit []"
| "seqs [r] = r"
| "seqs (r # rs) = Seq r (seqs rs)"

fun alts :: "string list \<Rightarrow> re" where
  "alts [] = Lit []"
| "alts [w] = Lit w"
| "alts (w # ws) = Alt (Lit w) (alts ws)"

section \<open>Values and \<^verbatim>\<open>JSON.stringify\<close>\<close>

text \<open>
  The values an inference function can be handed: \<^verbatim>\<open>undefined\<close>, \<^verbatim>\<open>null\<close>, booleans,
  numbers, strings, arrays and plain objects (their own properties in enumeration order).
  The digits that \<^verbatim>\<open>JSON.stringify\<close> prints for a number come from floating-point
  arithmetic, which is not modelled: a number is given by the text that is printed for it
  (\<^verbatim>\<open>null\<close> for \<^verbatim>\<open>NaN\<close> and the infinities).
\<close>

datatype jsval =
    JUndefined
  | JNull
  | JBool bool
  | JNumber string                      \<comment> \<open>a number, by the text that \<^verbatim>\<open>JSON.stringify\<close> prints for it\<close>
  | JString string
  | JArray "jsval list"
  | JObject "(string \<times> jsval) list"

definition quoteChar :: "char \<Rightarrow> string" where
  \<comment> \<open>QuoteJSONString on one code unit; \<open>CHR 0x5C\<close> is the backslash\<close>
  "quoteChar ch =
     (if ch = CHR 0x08 then [CHR 0x5C, CHR ''b'']
      else if ch = CHR 0x09 then [CHR 0x5C, CHR ''t'']
      else if ch = CHR 0x0A then [CHR 0x5C, CHR ''n'']
      else if ch = CHR 0x0C then [CHR 0x5C, CHR ''f'']
      else if ch = CHR 0x0D then [CHR 0x5C, CHR ''r'']
      else if ch = CHR 0x22 then [CHR 0x5C, CHR 0x22]
      else if ch = CHR 0x5C then [CHR 0x5C, CHR 0x5C]
      else if (of_char ch :: nat) < 32
      then [CHR 0x5C, CHR ''u'', CHR ''0'', CHR ''0'',
            ''0123456789abcdef'' ! ((of_char ch :: nat) div 16),
            ''0123456789abcdef'' ! ((of_char ch :: nat) mod 16)]
      else [ch])"

definition quote :: "string \<Rightarrow> string" where
  "quote s = [CHR 0x22] @ concat (map quoteChar s) @ [CHR 0x22]"

fun join :: "string \<Rightarrow> string list \<Rightarrow> string" where
  \<comment> \<open>\<^verbatim>\<open>xs.join(sep)\<close>\<close>
  "join sep [] = []"
| "join sep [x] = x"
| "join sep (x # xs) = x @ sep @ join sep xs"

text \<open>\<open>None\<close> is the result \<^verbatim>\<open>undefined\<close> of \<^verbatim>\<open>JSON.stringify\<close>.\<close>

fun JSON_stringify :: "jsval \<Rightarrow> string option" where
  "JSON_stringify JUndefined = None"
| "JSON_stringify JNull = Some ''null''"
| "JSON_stringify (JBool b) = Some (if b then ''true'' else ''false'')"
| "JSON_stringify (JNumber printed) = Some printed"
| "JSON_stringify (JString s) = Some (quote s)"
| "JSON_stringify (JArray vs) =
     Some (''['' @ join '','' (map (\<lambda>v. case JSON_stringify v of None \<Rightarrow> ''null'' | Some t \<Rightarrow> t) vs)
           @ '']'')"
| "JSON_stringify (JObject kvs) =
     Some (''{'' @ join '',''
             (concat (map (\<lambda>kv. case JSON_stringify (snd kv) of
                                   None \<Rightarrow> []
                                 | Some t \<Rightarrow> [quote (fst kv) @ '':'' @ t]) kvs))
           @ ''}'')"

definition coerce :: "jsval \<Rightarrow> string option" where
  \<comment> \<open>\<^verbatim>\<open>if (typeof text !== 'string') { text = JSON.stringify(text); }\<close>\<close>
  "coerce v = (case v of JString s \<Rightarrow> Some s | _ \<Rightarrow> JSON_stringify v)"

section \<open>The tagging library\<close>

text \<open>
  The library \<^verbatim>\<open>compromise\<close> is not part of the repository: what
  \<^verbatim>\<open>nlp(text).match(pattern).out('text')\<close> and \<^verbatim>\<open>.out('array')\<close> return is a parameter of
  the model. The document is built from the coerced text, which is \<^verbatim>\<open>undefined\<close> (\<open>None\<close>)
  when \<^verbatim>\<open>JSON.stringify\<close> returned \<^verbatim>\<open>undefined\<close>.
\<close>

record nlp =
  out_text :: "string \<Rightarrow> string option \<Rightarrow> string"
  out_array :: "string \<Rightarrow> string option \<Rightarrow> string list"

section \<open>The patterns of \<^verbatim>\<open>server.js\<close>\<close>

definition nameRegex :: re where
  \<comment> \<open>\<^verbatim>\<open>/(Name|NAME)?\s*[:\-]?\s*([A-Z][a-z]+(?:\s+[A-Z][a-z]+)+)/i\<close>\<close>
  "nameRegex = seqs
     [opt (Grp 1 (alts [''Name'', ''NAME''])),
      star (Cls isSpace), opt (Cls isColonDash), star (Cls isSpace),
      Grp 2 (seqs [Cls isUpper, plus (Cls isLower),
                   plus (seqs [plus (Cls isSpace), Cls isUpper, plus (Cls isLower)])])]"

definition emailCore :: re where
  \<comment> \<open>\<^verbatim>\<open>[a-zA-Z0-9._%+-]+@[a-zA-Z0-9.-]+\.[a-zA-Z]{2,}\<close>\<close>
  "emailCore = seqs
     [plus (Cls isLocal), Lit ''@'', plus (Cls isDomain), Lit ''.'', Rep 2 None True (Cls isAlpha)]"

definition emailRegex :: re where
  \<comment> \<open>\<^verbatim>\<open>/(Email|EMAIL)?\s*[:\-]?\s*([a-zA-Z0-9._%+-]+@[a-zA-Z0-9.-]+\.[a-zA-Z]{2,})/i\<close>\<close>
  "emailRegex = seqs
     [opt (Grp 1 (alts [''Email'', ''EMAIL''])),
      star (Cls isSpace), opt (Cls isColonDash), star (Cls isSpace),
      Grp 2 emailCore]"

definition emailFallbackRegex :: re where
  \<comment> \<open>\<^verbatim>\<open>/([a-zA-Z0-9._%+-]+@[a-zA-Z0-9.-]+\.[a-zA-Z]{2,})/i\<close>\<close>
  "emailFallbackRegex = Grp 1 emailCore"

definition phoneLabels :: re where
  "phoneLabels = alts [''Phone Number'', ''Phone number'', ''Contact Number'', ''Contact number'',
                       ''Contact'', ''CONTACT'', ''Phone'', ''PHONE'']"

definition phoneCore :: "nat \<Rightarrow> re" where
  \<comment> \<open>\<^verbatim>\<open>(\+?\d{1,3}[-.\s]?)?\(?\d{3}\)?[-.\s]?\d{3}[-.\s]?\d{4}\<close>, its group numbered \<open>g\<close>\<close>
  "phoneCore g = seqs
     [opt (Grp g (seqs [opt (Lit ''+''), Rep 1 (Some 3) True (Cls isDigit), opt (Cls isSep)])),
      opt (Lit ''(''), exactly 3 (Cls isDigit), opt (Lit '')''), opt (Cls isSep),
      exactly 3 (Cls isDigit), opt (Cls isSep), exactly 4 (Cls isDigit)]"

definition phoneRegex :: re where
  \<comment> \<open>\<^verbatim>\<open>/(Phone Number|Phone number|Contact Number|Contact number|Contact|CONTACT|Phone|PHONE)?\s*[:\-]?\s*(\+?\d{1,3}[-.\s]?)?\(?\d{3}\)?[-.\s]?\d{3}[-.\s]?\d{4}/i\<close>\<close>
  "phoneRegex = seqs
     [opt (Grp 1 phoneLabels),
      star (Cls isSpace), opt (Cls isColonDash), star (Cls isSpace),
      phoneCore 2]"

definition phoneFallbackRegex :: re where
  \<comment> \<open>\<^verbatim>\<open>/(\+?\d{1,3}[-.\s]?)?\(?\d{3}\)?[-.\s]?\d{3}[-.\s]?\d{4}/i\<close>\<close>
  "phoneFallbackRegex = phoneCore 1"

definition phoneLabelRegex :: re where
  \<comment> \<open>\<^verbatim>\<open>/(Phone Number|Phone number|Contact Number|Contact number|Contact|CONTACT|Phone|PHONE)[:\-]?\s*/i\<close>\<close>
  "phoneLabelRegex = seqs [Grp 1 phoneLabels, opt (Cls isColonDash), star (Cls isSpace)]"

definition educationRegex :: re where
  \<comment> \<open>\<^verbatim>\<open>/(Education|Educations|EDUCATION|EDUCATIONS|Academic Background|ACADEMIC BACKGROUND)\s*([\s\S]*?)(?=Skills|Projects|Qualifications|$)/i\<close>\<close>
  "educationRegex = seqs
     [Grp 1 (alts [''Education'', ''Educations'', ''EDUCATION'', ''EDUCATIONS'',
                   ''Academic Background'', ''ACADEMIC BACKGROUND'']),
      star (Cls isSpace),
      Grp 2 (lazyStar (Cls isAny)),
      Ahead (Alt (Lit ''Skills'') (Alt (Lit ''Projects'') (Alt (Lit ''Qualifications'') Eoi)))]"

definition skillsRegex :: re where
  \<comment> \<open>\<^verbatim>\<open>/(Skill|Skills|SKILL|SKILLS|Technical Skill|Technical Skills|TECHNICAL SKILL|TECHNICAL SKILLS|Qualifications|QUALIFICATIONS)\s*([\s\S]*?)(?=Projects|Education|$)/i\<close>\<close>
  "skillsRegex = seqs
     [Grp 1 (alts [''Skill'', ''Skills'', ''SKILL'', ''SKILLS'', ''Technical Skill'',
                   ''Technical Skills'', ''TECHNICAL SKILL'', ''TECHNICAL SKILLS'',
                   ''Qualifications'', ''QUALIFICATIONS'']),
      star (Cls isSpace),
      Grp 2 (lazyStar (Cls isAny)),
      Ahead (Alt (Lit ''Projects'') (Alt (Lit ''Education'') Eoi))]"

definition projectsRegex :: re where
  \<comment> \<open>\<^verbatim>\<open>/(Project|Projects|PROJECT|PROJECTS|Work Experience|WORK EXPERIENCE)\s*([\s\S]*?)(?=Education|Skills|Qualifications|$)/i\<close>\<close>
  "projectsRegex = seqs
     [Grp 1 (alts [''Project'', ''Projects'', ''PROJECT'', ''PROJECTS'',
                   ''Work Experience'', ''WORK EXPERIENCE'']),
      star (Cls isSpace),
      Grp 2 (lazyStar (Cls isAny)),
      Ahead (Alt (Lit ''Education'') (Alt (Lit ''Skills'') (Alt (Lit ''Qualifications'') Eoi)))]"

section \<open>Field inference\<close>

datatype js_error =
    TypeError            \<comment> \<open>a method called on \<^verbatim>\<open>undefined\<close>\<close>
  | UnsupportedFormat    \<comment> \<open>\<^verbatim>\<open>new Error('Unsupported file format. Only PDF and DOCX are allowed.')\<close>\<close>
  | ParseFailure         \<comment> \<open>\<^verbatim>\<open>pdf-parse\<close> or \<^verbatim>\<open>mammoth\<close> rejected the bytes\<close>
  | IOFailure            \<comment> \<open>a file read, the storage, the spreadsheet or the webhook failed\<close>

record personal_info =
  name :: string
  email :: string
  phone :: string

definition nameOf :: "nlp \<Rightarrow> string \<Rightarrow> js_error + string" where
  \<comment> \<open>the block \<^verbatim>\<open>**Extract Name**\<close> of \<^verbatim>\<open>extractPersonalInfo\<close>\<close>
  "nameOf lib text =
     (case match text nameRegex of
        Some nameMatch \<Rightarrow>
          (case grp nameMatch 2 of None \<Rightarrow> Inl TypeError | Some g \<Rightarrow> Inr (trim g))
      | None \<Rightarrow>
          (let personMatch = out_text lib ''#Person'' (Some text) in
           if personMatch \<noteq> [] then Inr (trim personMatch)
           else (let lines = filter (\<lambda>line. length line > 0) (map trim (split CHR 0x0A text)) in
                 if length lines > 0 then Inr (lines ! 0) else Inr [])))"

definition emailOf :: "string \<Rightarrow> js_error + string" where
  \<comment> \<open>the block \<^verbatim>\<open>**Extract Email**\<close>\<close>
  "emailOf text =
     (case match text emailRegex of
        Some emailMatch \<Rightarrow>
          (case grp emailMatch 2 of None \<Rightarrow> Inl TypeError | Some g \<Rightarrow> Inr (trim g))
      | None \<Rightarrow>
          (case match text emailFallbackRegex of
             Some emailFallback \<Rightarrow> Inr (trim (whole emailFallback))
           | None \<Rightarrow> Inr []))"

definition phoneOf :: "string \<Rightarrow> js_error + string" where
  \<comment> \<open>the block \<^verbatim>\<open>**Extract Phone Number**\<close>\<close>
  "phoneOf text =
     (case match text phoneRegex of
        Some phoneMatch \<Rightarrow> Inr (trim (replace (whole phoneMatch) phoneLabelRegex))
      | None \<Rightarrow>
          (case match text phoneFallbackRegex of
             Some phoneFallback \<Rightarrow> Inr (trim (whole phoneFallback))
           | None \<Rightarrow> Inr []))"

definition extractPersonalInfo :: "nlp \<Rightarrow> jsval \<Rightarrow> js_error + personal_info" where
  "extractPersonalInfo lib v =
     (case coerce v of
        None \<Rightarrow> Inl TypeError
      | Some text \<Rightarrow>
          (case nameOf lib text of
             Inl err \<Rightarrow> Inl err
           | Inr n \<Rightarrow>
               (case emailOf text of
                  Inl err \<Rightarrow> Inl err
                | Inr e \<Rightarrow>
                    (case phoneOf text of
                       Inl err \<Rightarrow> Inl err
                     | Inr p \<Rightarrow> Inr \<lparr>name = n, email = e, phone = p\<rparr>))))"

section \<open>Section extraction\<close>

fun setAdd :: "'a list \<Rightarrow> 'a list \<Rightarrow> 'a list" where
  \<comment> \<open>the constructor of \<^verbatim>\<open>Set\<close>: the elements are added one by one, an element that is
      already there is skipped, and the set keeps the order in which it was filled\<close>
  "setAdd acc [] = acc"
| "setAdd acc (x # xs) = setAdd (if x \<in> set acc then acc else acc @ [x]) xs"

definition uniq :: "'a list \<Rightarrow> 'a list" where
  \<comment> \<open>\<^verbatim>\<open>[...new Set(xs)]\<close>\<close>
  "uniq xs = setAdd [] xs"

definition entries :: "string \<Rightarrow> string list" where
  \<comment> \<open>\<^verbatim>\<open>g.trim().split('\n').map(line => line.trim()).filter(entry => entry.length > 0)\<close>\<close>
  "entries g = filter (\<lambda>entry. length entry > 0) (map trim (split CHR 0x0A (trim g)))"

definition extractSection ::
  "string \<Rightarrow> string \<Rightarrow> re \<Rightarrow> nlp \<Rightarrow> jsval \<Rightarrow> js_error + string list" where
  \<comment> \<open>the common body of \<^verbatim>\<open>extractEducation\<close>, \<^verbatim>\<open>extractSkills\<close> and \<^verbatim>\<open>extractProjects\<close>,
      which differ in the tag, the vocabulary and the pattern only\<close>
  "extractSection tag vocabulary regex lib v =
     (let text = coerce v;
          matches = out_array lib tag text @ out_array lib vocabulary text;
          unique = uniq matches
      in if length unique = 0
         then (case text of
                 None \<Rightarrow> Inl TypeError
               | Some t \<Rightarrow>
                   (case match t regex of
                      Some mt \<Rightarrow>
                        (case grp mt 2 of None \<Rightarrow> Inl TypeError | Some g \<Rightarrow> Inr (entries g))
                    | None \<Rightarrow> Inr unique))
         else Inr unique)"

text \<open>The vocabulary patterns handed to \<^verbatim>\<open>doc.match\<close> in the three extractors.\<close>

definition educationVocabulary :: string where
  "educationVocabulary =
     ''Education|Educations|EDUCATION|EDUCATIONS|Academic Background|ACADEMIC BACKGROUND''"

definition skillsVocabulary :: string where
  "skillsVocabulary =
     ''Skill|Skills|SKILL|SKILLS|Technical Skill|Technical Skills|TECHNICAL SKILL|TECHNICAL SKILLS|Qualifications|QUALIFICATIONS''"

definition projectsVocabulary :: string where
  "projectsVocabulary = ''Project|Projects|PROJECT|PROJECTS|Work Experience|WORK EXPERIENCE''"

definition extractEducation :: "nlp \<Rightarrow> jsval \<Rightarrow> js_error + string list" where
  "extractEducation = extractSection ''#Education'' educationVocabulary educationRegex"

definition extractSkills :: "nlp \<Rightarrow> jsval \<Rightarrow> js_error + string list" where
  "extractSkills = extractSection ''#Skill'' skillsVocabulary skillsRegex"

definition extractProjects :: "nlp \<Rightarrow> jsval \<Rightarrow> js_error + string list" where
  "extractProjects = extractSection ''#Project'' projectsVocabulary projectsRegex"

section \<open>Text extraction and the submission handler\<close>

type_synonym bytes = "char list"

text \<open>
  The helpers \<^verbatim>\<open>extractTextFromPDF\<close> and \<^verbatim>\<open>extractTextFromDOCX\<close> of \<^verbatim>\<open>server.js\<close>: the file
  is read from disk and parsed inside \<^verbatim>\<open>try\<close>, and \<^verbatim>\<open>catch\<close> returns the empty string. The
  file system and the parsers are parameters.
\<close>

definition extractTextFromPDF ::
  "(string \<Rightarrow> js_error + bytes) \<Rightarrow> (bytes \<Rightarrow> js_error + string) \<Rightarrow> string \<Rightarrow> string" where
  "extractTextFromPDF readFile pdf filePath =
     (case readFile filePath of
        Inl e \<Rightarrow> []
      | Inr dataBuffer \<Rightarrow> (case pdf dataBuffer of Inl e \<Rightarrow> [] | Inr text \<Rightarrow> text))"

definition extractTextFromDOCX :: "(string \<Rightarrow> js_error + string) \<Rightarrow> string \<Rightarrow> string" where
  "extractTextFromDOCX extractRawText filePath =
     (case extractRawText filePath of Inl e \<Rightarrow> [] | Inr v \<Rightarrow> v)"

record upload =
  originalname :: string
  buffer :: bytes

record request =
  body_name :: string
  body_email :: string
  body_phone :: string
  req_file :: upload

record response =
  status :: nat
  message :: string

text \<open>What the handler does to the outside, in the order in which it does it.\<close>

datatype event =
    ParsePdf bytes                        \<comment> \<open>\<^verbatim>\<open>pdf(fileBuffer)\<close>\<close>
  | ParseDocx bytes                       \<comment> \<open>\<^verbatim>\<open>mammoth.extractRawText({ buffer: fileBuffer })\<close>\<close>
  | Infer string                          \<comment> \<open>the four inference functions on the text\<close>
  | Upload string                         \<comment> \<open>\<^verbatim>\<open>uploadToS3(fileBuffer, file.originalname)\<close>\<close>
  | Store "string list"                   \<comment> \<open>\<^verbatim>\<open>storeInGoogleSheets(row)\<close>\<close>
  | Mail string                           \<comment> \<open>\<^verbatim>\<open>sendEmail(email)\<close>\<close>
  | Hook string personal_info string      \<comment> \<open>\<^verbatim>\<open>sendWebhook(email, cvData, publicUrl, ...)\<close>\<close>
  | Log js_error                          \<comment> \<open>\<^verbatim>\<open>console.error(error)\<close> of the handler's \<^verbatim>\<open>catch\<close>\<close>

record services =
  pdf :: "bytes \<Rightarrow> js_error + string"
  extractRawText :: "bytes \<Rightarrow> js_error + string"
  tagger :: nlp
  uploadToS3 :: "bytes \<Rightarrow> string \<Rightarrow> js_error + string"
  storeInGoogleSheets :: "string list \<Rightarrow> js_error + unit"
  sendWebhook :: "string \<Rightarrow> personal_info \<Rightarrow> string \<Rightarrow> js_error + bool"

definition orElse :: "string \<Rightarrow> string \<Rightarrow> string" where
  \<comment> \<open>\<^verbatim>\<open>a || b\<close> on strings: the empty string is falsy\<close>
  "orElse a b = (if a = [] then b else a)"

definition succeeded :: response where
  "succeeded = \<lparr>status = 200, message = ''Application submitted successfully!''\<rparr>"

definition failed :: response where
  \<comment> \<open>\<^verbatim>\<open>res.status(500).json({ message: 'Error processing application.' })\<close>\<close>
  "failed = \<lparr>status = 500, message = ''Error processing application.''\<rparr>"

definition readText :: "services \<Rightarrow> upload \<Rightarrow> (js_error + string) \<times> event list" where
  \<comment> \<open>lines 354 to 366 of \<^verbatim>\<open>server.js\<close>: the parsers are called directly\<close>
  "readText sv f =
     (let fileBuffer = buffer f;
          fileExtension = last (split CHR ''.'' (originalname f))
      in if fileExtension = ''pdf'' then (pdf sv fileBuffer, [ParsePdf fileBuffer])
         else if fileExtension = ''docx'' then (extractRawText sv fileBuffer, [ParseDocx fileBuffer])
         else (Inl UnsupportedFormat, []))"

definition inferAll ::
  "nlp \<Rightarrow> string \<Rightarrow> js_error + personal_info \<times> string list \<times> string list \<times> string list" where
  \<comment> \<open>lines 369 to 372\<close>
  "inferAll lib text =
     (case extractPersonalInfo lib (JString text) of
        Inl e \<Rightarrow> Inl e
      | Inr personalInfo \<Rightarrow>
          (case extractEducation lib (JString text) of
             Inl e \<Rightarrow> Inl e
           | Inr education \<Rightarrow>
               (case extractSkills lib (JString text) of
                  Inl e \<Rightarrow> Inl e
                | Inr skills \<Rightarrow>
                    (case extractProjects lib (JString text) of
                       Inl e \<Rightarrow> Inl e
                     | Inr projects \<Rightarrow> Inr (personalInfo, education, skills, projects)))))"

definition deliver ::
  "services \<Rightarrow> request \<Rightarrow> personal_info \<times> string list \<times> string list \<times> string list
    \<Rightarrow> (js_error + unit) \<times> event list" where
  \<comment> \<open>lines 375 to 397: storage, spreadsheet, mail, webhook; \<^verbatim>\<open>sendEmail\<close> catches its
      own errors\<close>
  "deliver sv rq r =
     (case r of (personalInfo, education, skills, projects) \<Rightarrow>
        (let f = req_file rq;
             cvData = \<lparr>name = orElse (name personalInfo) (body_name rq),
                       email = orElse (email personalInfo) (body_email rq),
                       phone = orElse (phone personalInfo) (body_phone rq)\<rparr>
         in (case uploadToS3 sv (buffer f) (originalname f) of
               Inl e \<Rightarrow> (Inl e, [Upload (originalname f)])
             | Inr publicUrl \<Rightarrow>
                 (let row = [name cvData, email cvData, phone cvData, publicUrl,
                             join [CHR 0x0A] education, join [CHR 0x0A] skills,
                             join [CHR 0x0A] projects]
                  in (case storeInGoogleSheets sv row of
                        Inl e \<Rightarrow> (Inl e, [Upload (originalname f), Store row])
                      | Inr u \<Rightarrow>
                          (case sendWebhook sv (body_email rq) cvData publicUrl of
                             Inl e \<Rightarrow> (Inl e, [Upload (originalname f), Store row,
                                                Mail (body_email rq),
                                                Hook (body_email rq) cvData publicUrl])
                           | Inr ok \<Rightarrow> (Inr (), [Upload (originalname f), Store row,
                                                 Mail (body_email rq),
                                                 Hook (body_email rq) cvData publicUrl])))))))"

definition submit :: "services \<Rightarrow> request \<Rightarrow> response \<times> event list" where
  \<comment> \<open>\<^verbatim>\<open>app.post('/submit', ...)\<close>: one \<^verbatim>\<open>try\<close> around everything, \<^verbatim>\<open>catch\<close> answers 500\<close>
  "submit sv rq =
     (case readText sv (req_file rq) of
        (Inl e, evs) \<Rightarrow> (failed, evs @ [Log e])
      | (Inr text, evs) \<Rightarrow>
          (case inferAll (tagger sv) text of
             Inl e \<Rightarrow> (failed, evs @ [Infer text, Log e])
           | Inr r \<Rightarrow>
               (case deliver sv rq r of
                  (Inl e, evs') \<Rightarrow> (failed, evs @ [Infer text] @ evs' @ [Log e])
                | (Inr u, evs') \<Rightarrow> (succeeded, evs @ [Infer text] @ evs'))))"

section \<open>Inputs used in the examples\<close>

definition noTagger :: nlp where
  \<comment> \<open>a tagger that finds nothing in any document\<close>
  "noTagger = \<lparr>out_text = (\<lambda>pattern text. []), out_array = (\<lambda>pattern text. [])\<rparr>"

definition headerTagger :: nlp where
  \<comment> \<open>a tagger that reports the word \<^verbatim>\<open>Education\<close> once for every pattern\<close>
  "headerTagger = \<lparr>out_text = (\<lambda>pattern text. []), out_array = (\<lambda>pattern text. [''Education''])\<rparr>"

definition okServices :: services where
  \<comment> \<open>collaborators that all succeed, around parsers that reject every document\<close>
  "okServices =
     \<lparr>pdf = (\<lambda>b. Inl ParseFailure), extractRawText = (\<lambda>b. Inl ParseFailure),
      tagger = noTagger, uploadToS3 = (\<lambda>b n. Inr (''https://bucket.s3.amazonaws.com/'' @ n)),
      storeInGoogleSheets = (\<lambda>row. Inr ()), sendWebhook = (\<lambda>e cv url. Inr True)\<rparr>"

definition readingServices :: services where
  \<comment> \<open>collaborators that all succeed, around parsers that read the text \<^verbatim>\<open>Jane Doe\<close>\<close>
  "readingServices =
     \<lparr>pdf = (\<lambda>b. Inr ''Jane Doe''), extractRawText = (\<lambda>b. Inr ''Jane Doe''),
      tagger = noTagger, uploadToS3 = (\<lambda>b n. Inr (''https://bucket.s3.amazonaws.com/'' @ n)),
      storeInGoogleSheets = (\<lambda>row. Inr ()), sendWebhook = (\<lambda>e cv url. Inr True)\<rparr>"

definition janeRequest :: "string \<Rightarrow> request" where
  "janeRequest filename =
     \<lparr>body_name = ''Jane Doe'', body_email = ''jane.doe@example.com'', body_phone = ''555-123-4567'',
      req_file = \<lparr>originalname = filename, buffer = ''not a document''\<rparr>\<rparr>"

section \<open>Notions used in the proofs\<close>

text \<open>
  \<open>alpha r\<close> holds of the characters that \<open>r\<close> can consume; \<open>binds n r\<close> says that every
  match of \<open>r\<close> sets group \<open>n\<close>; \<open>grps r\<close> are the groups of \<open>r\<close>; \<open>rests r s\<close> is the matcher
  with the captures left out.
\<close>

fun alpha :: "re \<Rightarrow> char \<Rightarrow> bool" where
  "alpha (Lit w) ch = (\<exists>a\<in>set w. eqI a ch)"
| "alpha (Cls p) ch = clsI p ch"
| "alpha (Seq a b) ch = (alpha a ch \<or> alpha b ch)"
| "alpha (Alt a b) ch = (alpha a ch \<or> alpha b ch)"
| "alpha (Rep mn mx g r) ch = alpha r ch"
| "alpha (Grp n r) ch = alpha r ch"
| "alpha (Ahead r) ch = False"
| "alpha Eoi ch = False"

fun binds :: "nat \<Rightarrow> re \<Rightarrow> bool" where
  "binds n (Seq a b) = (binds n a \<or> binds n b)"
| "binds n (Alt a b) = (binds n a \<and> binds n b)"
| "binds n (Grp k r) = (k = n \<or> binds n r)"
| "binds n (Ahead r) = binds n r"
| "binds n r = False"

fun grps :: "re \<Rightarrow> nat set" where
  "grps (Seq a b) = grps a \<union> grps b"
| "grps (Alt a b) = grps a \<union> grps b"
| "grps (Rep mn mx g r) = grps r"
| "grps (Grp k r) = insert k (grps r)"
| "grps (Ahead r) = grps r"
| "grps r = {}"

function rests :: "re \<Rightarrow> string \<Rightarrow> string list" where
  "rests (Lit w) s = (case lit w s of None \<Rightarrow> [] | Some s' \<Rightarrow> [s'])"
| "rests (Cls p) s = (case s of [] \<Rightarrow> [] | x # xs \<Rightarrow> if clsI p x then [xs] else [])"
| "rests (Seq a b) s = concat (map (rests b) (rests a s))"
| "rests (Alt a b) s = rests a s @ rests b s"
| "rests (Grp n r) s = rests r s"
| "rests (Ahead r) s = (case rests r s of [] \<Rightarrow> [] | y # ys \<Rightarrow> [s])"
| "rests Eoi s = (if s = [] then [s] else [])"
| "rests (Rep mn mx g r) s =
     (if mx = Some 0 then [s]
      else if mn \<noteq> 0
      then concat (map (rests (Rep (mn - 1) (map_option (\<lambda>k. k - 1) mx) g r)) (rests r s))
      else if g
      then concat (map (\<lambda>s'. if length s' < length s
                               then rests (Rep 0 (map_option (\<lambda>k. k - 1) mx) g r) s'
                               else [])
                       (rests r s)) @ [s]
      else s # concat (map (\<lambda>s'. if length s' < length s
                               then rests (Rep 0 (map_option (\<lambda>k. k - 1) mx) g r) s'
                               else [])
                       (rests r s)))"
  by pat_completeness auto
termination
  by (relation "measures [\<lambda>(r, s). depth r, \<lambda>(r, s). repMin r, \<lambda>(r, s). length s]") auto


text \<open>\<open>first r s c\<close> is the result that the matcher reports, if there is one.\<close>

definition first :: "re \<Rightarrow> string \<Rightarrow> caps \<Rightarrow> (string \<times> caps) option" where
  "first r s c = (case m r s c of [] \<Rightarrow> None | y # ys \<Rightarrow> Some y)"

text \<open>
  The characters that the pattern for the telephone number can consume behind a label:
  digits, white space and the punctuation \<^verbatim>\<open>+ - . ( ) :\<close>. \<open>afterLabel rest\<close> is what follows a
  label once a colon or dash that stands directly behind it is removed.
\<close>

definition isPhoneChar :: "char \<Rightarrow> bool" where
  "isPhoneChar ch = (isDigit ch \<or> isSpace ch \<or> ch \<in> set ''+-.():'')"

definition afterLabel :: "string \<Rightarrow> string" where
  "afterLabel rest = (case rest of [] \<Rightarrow> [] | x # xs \<Rightarrow> if isColonDash x then xs else x # xs)"


text \<open>
  The words of the specification, to compare the handler's \<^verbatim>\<open>split('.').pop()\<close> with: the
  extension is the suffix of the file name after its final dot; a name without a dot has
  none.
\<close>

definition suffixAfterFinalDot :: "string \<Rightarrow> string option" where
  "suffixAfterFinalDot filename =
     (if CHR ''.'' \<in> set filename
      then Some (rev (takeWhile (\<lambda>ch. ch \<noteq> CHR ''.'') (rev filename)))
      else None)"

text \<open>
  The words of the specification, to compare \<^const>\<open>uniq\<close> with: the elements of the list
  that do not occur earlier in the list, in the order of the list.
\<close>

definition firstOccurrences :: "'a list \<Rightarrow> 'a list" where
  "firstOccurrences xs =
     map (\<lambda>i. xs ! i) (filter (\<lambda>i. xs ! i \<notin> set (take i xs)) [0..<length xs])"

section \<open>Evaluation of the character classes\<close>

text \<open>
  Code equations on the eight bits of a character (the first bit is the lowest), so that a
  class test on a given character is decided in a few steps.
\<close>

lemmas cls_eval = list.set insert_iff empty_iff char.inject simp_thms

lemma isLower_code [code]:
  "isLower (Char b0 b1 b2 b3 b4 b5 b6 b7) =
     (b5 \<and> b6 \<and> \<not> b7 \<and> (b0 \<or> b1 \<or> b2 \<or> b3 \<or> b4) \<and> \<not> (b4 \<and> b3 \<and> (b2 \<or> (b1 \<and> b0))))"
  by (cases b7; cases b6; cases b5; (simp only: isLower_def cls_eval)?;
      cases b0; cases b1; cases b2; cases b3; cases b4; simp only: isLower_def cls_eval)

lemma isUpper_code [code]:
  "isUpper (Char b0 b1 b2 b3 b4 b5 b6 b7) =
     (\<not> b5 \<and> b6 \<and> \<not> b7 \<and> (b0 \<or> b1 \<or> b2 \<or> b3 \<or> b4) \<and> \<not> (b4 \<and> b3 \<and> (b2 \<or> (b1 \<and> b0))))"
  by (cases b7; cases b6; cases b5; (simp only: isUpper_def cls_eval)?;
      cases b0; cases b1; cases b2; cases b3; cases b4; simp only: isUpper_def cls_eval)




lemmas tbl_eval = zip_Cons_Cons zip_Nil map_of.simps fst_conv snd_conv char.inject simp_thms
  if_True if_False option.case fun_upd_apply

lemma toUpper_code [code]:
  "toUpper (Char b0 b1 b2 b3 b4 b5 b6 b7) =
     (if isLower (Char b0 b1 b2 b3 b4 b5 b6 b7) then Char b0 b1 b2 b3 b4 False b6 b7
      else Char b0 b1 b2 b3 b4 b5 b6 b7)"
  by (cases b7; cases b6; cases b5; (simp only: toUpper_def isLower_code tbl_eval)?;
      cases b0; cases b1; cases b2; cases b3; cases b4; simp only: toUpper_def isLower_code tbl_eval)

lemma toLower_code [code]:
  "toLower (Char b0 b1 b2 b3 b4 b5 b6 b7) =
     (if isUpper (Char b0 b1 b2 b3 b4 b5 b6 b7) then Char b0 b1 b2 b3 b4 True b6 b7
      else Char b0 b1 b2 b3 b4 b5 b6 b7)"
  by (cases b7; cases b6; cases b5; (simp only: toLower_def isUpper_code tbl_eval)?;
      cases b0; cases b1; cases b2; cases b3; cases b4; simp only: toLower_def isUpper_code tbl_eval)

section \<open>Properties of the matcher\<close>

declare m.simps(8) [simp del]
declare rests.simps(8) [simp del]
declare exec.simps [simp del]

lemma lit_consumes:
  "lit w s = Some s' \<Longrightarrow> \<exists>u. s = u @ s' \<and> length u = length w \<and> list_all2 eqI w u"
proof (induction w s rule: lit.induct)
  case (3 a w x s)
  then obtain u where "s = u @ s'" "length u = length w" "list_all2 eqI w u"
    by (auto split: if_splits)
  with 3 show ?case
    by (intro exI [of _ "x # u"]) (auto split: if_splits)
qed auto

lemma list_all2_alpha:
  "list_all2 eqI w u \<Longrightarrow> \<forall>ch\<in>set u. \<exists>a\<in>set w. eqI a ch"
  by (induction rule: list_all2_induct) auto

lemma m_consumes:
  "y \<in> set (m r s c) \<Longrightarrow> \<exists>u. s = u @ fst y \<and> (\<forall>ch\<in>set u. alpha r ch)"
proof (induction r s c arbitrary: y rule: m.induct)
  case (1 w s c)
  then obtain s' where l: "lit w s = Some s'" and y: "y = (s', c)"
    by (cases "lit w s") auto
  from lit_consumes [OF l] obtain u where "s = u @ s'" "list_all2 eqI w u"
    by blast
  then show ?case using y list_all2_alpha [of w u]
    by (intro exI [of _ u]) auto
next
  case (2 p s c)
  then show ?case
    by (cases s) (auto split: if_splits)
next
  case (3 a b s c)
  from "3.prems" obtain z where z: "z \<in> set (m a s c)" and y: "y \<in> set (m b (fst z) (snd z))"
    by auto
  from "3.IH"(1) [OF z] obtain u where u: "s = u @ fst z" "\<forall>ch\<in>set u. alpha a ch"
    by blast
  from "3.IH"(2) [OF z y] obtain v where v: "fst z = v @ fst y" "\<forall>ch\<in>set v. alpha b ch"
    by blast
  show ?case
    using u v by (intro exI [of _ "u @ v"]) auto
next
  case (4 a b s c)
  then show ?case by fastforce
next
  case (5 n r s c)
  then show ?case by fastforce
next
  case (6 r s c)
  then show ?case by (auto split: list.splits)
next
  case (7 s c)
  then show ?case by (auto split: if_splits)
next
  case (8 mn mx g r s c)
  show ?case
  proof (cases "mx = Some 0")
    case True
    with "8.prems" show ?thesis by (subst (asm) m.simps(8)) simp
  next
    case nz: False
    show ?thesis
    proof (cases "y = (s, c)")
      case True
      then show ?thesis by simp
    next
      case False
      with "8.prems" nz obtain z where z: "z \<in> set (m r s c)"
        and y: "y \<in> set (m (Rep (mn - 1) (map_option (\<lambda>k. k - 1) mx) g r) (fst z) (snd z))"
        and ok: "mn \<noteq> 0 \<or> length (fst z) < length s"
        by (subst (asm) m.simps(8)) (auto split: if_splits)
      from "8.IH"(1) [OF nz _ z] "8.IH"(3) [OF nz _ _ z] "8.IH"(5) [OF nz _ _ z]
      obtain u where u: "s = u @ fst z" "\<forall>ch\<in>set u. alpha r ch"
        by (cases "mn = 0"; cases g) blast+
      have "\<exists>v. fst z = v @ fst y \<and> (\<forall>ch\<in>set v. alpha (Rep (mn - 1) (map_option (\<lambda>k. k - 1) mx) g r) ch)"
      proof (cases "mn = 0")
        case True
        with ok have lt: "length (fst z) < length s" by simp
        from True y show ?thesis
          using "8.IH"(4) [OF nz _ _ z lt, of y] "8.IH"(6) [OF nz _ _ z lt, of y]
          by (cases g) auto
      next
        case False
        then show ?thesis
          using "8.IH"(2) [OF nz False z y] by simp
      qed
      then obtain v where v: "fst z = v @ fst y" "\<forall>ch\<in>set v. alpha r ch"
        by auto
      show ?thesis
        using u v by (intro exI [of _ "u @ v"]) auto
    qed
  qed
qed


lemma concat_map_fst:
  "(\<And>y. y \<in> set ys \<Longrightarrow> map fst (f y) = h (fst y))
   \<Longrightarrow> map fst (concat (map f ys)) = concat (map h (map fst ys))"
  by (induction ys) auto

lemma fsts_m: "map fst (m r s c) = rests r s"
proof (induction r s c rule: m.induct)
  case (1 w s c)
  show ?case by (simp split: option.splits)
next
  case (2 p s c)
  show ?case by (simp split: list.splits)
next
  case (3 a b s c)
  have "map fst (m (Seq a b) s c) = concat (map (rests b) (map fst (m a s c)))"
    unfolding m.simps by (rule concat_map_fst) (rule "3.IH"(2))
  then show ?case by (simp add: "3.IH"(1))
next
  case (4 a b s c)
  then show ?case by simp
next
  case (5 n r s c)
  then show ?case by (simp add: comp_def)
next
  case (6 r s c)
  have "(m r s c = []) = (rests r s = [])"
    using "6.IH" by (metis map_is_Nil_conv)
  then show ?case by (auto split: list.splits)
next
  case (7 s c)
  show ?case by simp
next
  case (8 mn mx g r s c)
  let ?R = "Rep (mn - 1) (map_option (\<lambda>k. k - 1) mx) g r"
  show ?case
  proof (cases "mx = Some 0")
    case True
    then show ?thesis by (simp add: m.simps(8) rests.simps(8))
  next
    case nz: False
    show ?thesis
    proof (cases "mn = 0")
      case False
      have "map fst (concat (map (\<lambda>y. m ?R (fst y) (snd y)) (m r s c)))
            = concat (map (rests ?R) (map fst (m r s c)))"
        by (rule concat_map_fst) (rule "8.IH"(2) [OF nz False])
      with nz False "8.IH"(1) [OF nz False] show ?thesis
        by (simp add: m.simps(8) [of mn] rests.simps(8) [of mn])
    next
      case z: True
      have r: "map fst (m r s c) = rests r s"
        using "8.IH"(3) [OF nz] "8.IH"(5) [OF nz] z by (cases g) auto
      let ?R0 = "Rep 0 (map_option (\<lambda>k. k - 1) mx) g r"
      have "map fst (concat (map (\<lambda>y. if length (fst y) < length s then m ?R0 (fst y) (snd y) else [])
                                 (m r s c)))
            = concat (map (\<lambda>s'. if length s' < length s then rests ?R0 s' else [])
                          (map fst (m r s c)))"
        by (rule concat_map_fst)
           (use "8.IH"(4) [OF nz] "8.IH"(6) [OF nz] z in \<open>cases g; auto\<close>)
      with nz z r show ?thesis
        by (simp add: m.simps(8) [of 0] rests.simps(8) [of 0])
    qed
  qed
qed

lemma m_Nil_iff: "m r s c = [] \<longleftrightarrow> rests r s = []"
  by (metis fsts_m map_is_Nil_conv)


lemma exec_None_iff: "exec r s i = None \<longleftrightarrow> (\<forall>t. suffix t s \<longrightarrow> rests r t = [])"
proof (induction s arbitrary: i)
  case Nil
  show ?case
    using m_Nil_iff [of r "[]" "[]"]
    by (cases "m r [] []") (auto simp: exec.simps [of r "[]"])
next
  case (Cons x s)
  show ?case
    using m_Nil_iff [of r "x # s" "[]"]
    by (cases "m r (x # s) []") (auto simp: exec.simps [of r "x # s"] Cons.IH suffix_Cons)
qed

lemma exec_Some_D:
  "exec r s i = Some mt \<Longrightarrow>
     \<exists>p t y ys. s = p @ t \<and> m r t [] = y # ys \<and> (\<forall>q. suffix q s \<and> length t < length q \<longrightarrow> rests r q = [])
        \<and> index mt = i + length p \<and> whole mt = take (length t - length (fst y)) t \<and> groups mt = snd y"
proof (induction s arbitrary: i)
  case Nil
  then show ?case
    by (cases "m r [] []") (auto simp: exec.simps [of r "[]"])
next
  case (Cons x s)
  show ?case
  proof (cases "m r (x # s) []")
    case (Cons y ys)
    with Cons.prems show ?thesis
      by (intro exI [of _ "[]"] exI [of _ "x # s"] exI [of _ y] exI [of _ ys])
         (auto simp: exec.simps [of r "x # s"] dest: suffix_length_le)
  next
    case Nil
    with Cons.prems have "exec r s (Suc i) = Some mt"
      by (simp add: exec.simps [of r "x # s"])
    from Cons.IH [OF this] obtain p t y ys where
      *: "s = p @ t" "m r t [] = y # ys"
         "\<forall>q. suffix q s \<and> length t < length q \<longrightarrow> rests r q = []"
         "index mt = Suc i + length p" "whole mt = take (length t - length (fst y)) t"
         "groups mt = snd y"
      by blast
    have "\<forall>q. suffix q (x # s) \<and> length t < length q \<longrightarrow> rests r q = []"
      using * Nil by (auto simp: suffix_Cons m_Nil_iff)
    with * show ?thesis
      by (intro exI [of _ "x # p"] exI [of _ t] exI [of _ y] exI [of _ ys]) auto
  qed
qed

lemma rests_skip: "s \<in> set (rests (Rep 0 mx True r) s)"
  by (subst rests.simps(8)) simp

lemma rests_star_skip: "s \<in> set (rests (star r) s)"
  by (simp add: star_def rests_skip)

lemma rests_opt_skip: "s \<in> set (rests (opt r) s)"
  by (simp add: opt_def rests_skip)

lemma rests_max0 [simp]: "rests (Rep mn (Some 0) g r) s = [s]"
  by (subst rests.simps(8)) simp

lemma rests_opt: "rests (opt r) s = filter (\<lambda>t. length t < length s) (rests r s) @ [s]"
proof -
  have "concat (map (\<lambda>t. if length t < length s then [t] else []) ts)
        = filter (\<lambda>t. length t < length s) ts" for ts :: "string list"
    by (induction ts) auto
  then show ?thesis
    unfolding opt_def by (subst rests.simps(8)) (simp cong: if_cong)
qed

lemma rests_opt_Grp: "rests (opt (Grp g r)) s = rests (opt r) s"
  by (simp add: rests_opt)

lemma rests_Seq_I:
  "u \<in> set (rests a s) \<Longrightarrow> t \<in> set (rests b u) \<Longrightarrow> t \<in> set (rests (Seq a b) s)"
  by auto

lemma rests_phoneCore: "rests (phoneCore g) s = rests (phoneCore 0) s"
  by (simp add: phoneCore_def rests_opt_Grp)

lemma rests_phoneRegex_I:
  assumes "rests (phoneCore 2) s \<noteq> []"
  shows "rests phoneRegex s \<noteq> []"
proof -
  from assms obtain t where "t \<in> set (rests (phoneCore 2) s)"
    by (cases "rests (phoneCore 2) s") auto
  then have "t \<in> set (rests phoneRegex s)"
    unfolding phoneRegex_def seqs.simps
    by (intro rests_Seq_I [OF rests_opt_skip] rests_Seq_I [OF rests_star_skip])
  then show ?thesis by auto
qed

lemma phone_primary_covers:
  assumes "match text phoneRegex = None"
  shows "match text phoneFallbackRegex = None"
proof -
  have "rests phoneFallbackRegex t = []" if "suffix t text" for t
  proof (rule ccontr)
    assume "rests phoneFallbackRegex t \<noteq> []"
    then have "rests (phoneCore 2) t \<noteq> []"
      using rests_phoneCore [of 1 t] rests_phoneCore [of 2 t]
      by (simp add: phoneFallbackRegex_def)
    then have "rests phoneRegex t \<noteq> []"
      by (rule rests_phoneRegex_I)
    with assms that show False
      by (simp add: match_def exec_None_iff)
  qed
  then show ?thesis
    by (simp add: match_def exec_None_iff)
qed

lemma m_caps:
  "y \<in> set (m r s c) \<Longrightarrow> \<exists>new. snd y = new @ c"
proof (induction r s c arbitrary: y rule: m.induct)
  case (1 w s c)
  then show ?case by (cases "lit w s") auto
next
  case (2 p s c)
  then show ?case by (cases s) (auto split: if_splits)
next
  case (3 a b s c)
  from "3.prems" obtain z where z: "z \<in> set (m a s c)" and y: "y \<in> set (m b (fst z) (snd z))"
    by auto
  from "3.IH"(1) [OF z] "3.IH"(2) [OF z y] show ?case
    by auto
next
  case (4 a b s c)
  then show ?case by fastforce
next
  case (5 n r s c)
  from "5.prems" obtain z where z: "z \<in> set (m r s c)"
    and y: "snd y = (n, take (length s - length (fst z)) s) # snd z"
    by auto
  from "5.IH" [OF z] y show ?case
    by auto
next
  case (6 r s c)
  then show ?case by (cases "m r s c") auto
next
  case (7 s c)
  then show ?case by (auto split: if_splits)
next
  case (8 mn mx g r s c)
  show ?case
  proof (cases "mx = Some 0")
    case True
    with "8.prems" show ?thesis by (subst (asm) m.simps(8)) simp
  next
    case nz: False
    show ?thesis
    proof (cases "y = (s, c)")
      case True
      then show ?thesis by simp
    next
      case False
      with "8.prems" nz obtain z where z: "z \<in> set (m r s c)"
        and y: "y \<in> set (m (Rep (mn - 1) (map_option (\<lambda>k. k - 1) mx) g r) (fst z) (snd z))"
        and ok: "mn \<noteq> 0 \<or> length (fst z) < length s"
        by (subst (asm) m.simps(8)) (auto split: if_splits)
      from "8.IH"(1) [OF nz _ z] "8.IH"(3) [OF nz _ _ z] "8.IH"(5) [OF nz _ _ z]
      obtain n1 where n1: "snd z = n1 @ c"
        by (cases "mn = 0"; cases g) blast+
      have "\<exists>n2. snd y = n2 @ snd z"
      proof (cases "mn = 0")
        case True
        with ok have lt: "length (fst z) < length s" by simp
        from True y show ?thesis
          using "8.IH"(4) [OF nz _ _ z lt, of y] "8.IH"(6) [OF nz _ _ z lt, of y]
          by (cases g) auto
      next
        case False
        then show ?thesis
          using "8.IH"(2) [OF nz False z y] by simp
      qed
      with n1 show ?thesis by auto
    qed
  qed
qed

lemma m_keeps:
  assumes "y \<in> set (m r s c)" and "map_of c n \<noteq> None"
  shows "map_of (snd y) n \<noteq> None"
proof -
  from m_caps [OF assms(1)] obtain new where "snd y = new @ c" ..
  with assms(2) show ?thesis
    by (auto simp: map_add_def split: option.splits)
qed

lemma m_binds:
  "binds n r \<Longrightarrow> y \<in> set (m r s c) \<Longrightarrow> map_of (snd y) n \<noteq> None"
proof (induction r s c arbitrary: y rule: m.induct)
  case (3 a b s c)
  from "3.prems" obtain z where z: "z \<in> set (m a s c)" and y: "y \<in> set (m b (fst z) (snd z))"
    by auto
  show ?case
  proof (cases "binds n a")
    case True
    from "3.IH"(1) [OF True z] m_keeps [OF y] show ?thesis by blast
  next
    case False
    with "3.prems" have "binds n b" by simp
    from "3.IH"(2) [OF z this y] show ?thesis .
  qed
next
  case (4 a b s c)
  then show ?case by fastforce
next
  case (5 k r s c)
  from "5.prems" obtain z where z: "z \<in> set (m r s c)"
    and y: "snd y = (k, take (length s - length (fst z)) s) # snd z"
    by auto
  show ?case
  proof (cases "k = n")
    case True
    with y show ?thesis by simp
  next
    case False
    with "5.prems" have "binds n r" by simp
    from "5.IH" [OF this z] y False show ?thesis by simp
  qed
next
  case (6 r s c)
  then show ?case by (cases "m r s c") auto
qed auto

lemma match_binds:
  assumes "binds n r" and "match s r = Some mt"
  shows "grp mt n \<noteq> None"
proof -
  from exec_Some_D [OF assms(2) [unfolded match_def]] obtain t y ys where
    "m r t [] = y # ys" "groups mt = snd y"
    by blast
  with m_binds [OF assms(1), of y t "[]"] show ?thesis
    by (simp add: grp_def)
qed

lemma nameOf_total: "\<exists>n. nameOf lib t = Inr n"
proof (cases "match t nameRegex")
  case None
  then show ?thesis by (simp add: nameOf_def Let_def)
next
  case (Some mt)
  have "binds 2 nameRegex" by (simp add: nameRegex_def)
  from match_binds [OF this Some] Some show ?thesis
    by (auto simp: nameOf_def)
qed

lemma emailOf_total: "\<exists>e. emailOf t = Inr e"
proof (cases "match t emailRegex")
  case None
  then show ?thesis by (simp add: emailOf_def split: option.splits)
next
  case (Some mt)
  have "binds 2 emailRegex" by (simp add: emailRegex_def)
  from match_binds [OF this Some] Some show ?thesis
    by (auto simp: emailOf_def)
qed

lemma phoneOf_total: "\<exists>p. phoneOf t = Inr p"
  by (simp add: phoneOf_def split: option.splits)

lemma extractPersonalInfo_total:
  assumes "coerce v = Some t"
  shows "\<exists>n e p. nameOf lib t = Inr n \<and> emailOf t = Inr e \<and> phoneOf t = Inr p
           \<and> extractPersonalInfo lib v = Inr \<lparr>name = n, email = e, phone = p\<rparr>"
  using nameOf_total [of lib t] emailOf_total [of t] phoneOf_total [of t] assms
  by (auto simp: extractPersonalInfo_def)

lemma extractSection_total:
  assumes "coerce v = Some t" and "binds 2 regex"
  shows "\<exists>r. extractSection tag vocabulary regex lib v = Inr r"
proof (cases "match t regex")
  case None
  with assms show ?thesis by (simp add: extractSection_def Let_def)
next
  case (Some mt)
  from match_binds [OF assms(2) Some] Some assms(1) show ?thesis
    by (auto simp: extractSection_def Let_def)
qed

lemma coerce_string: "coerce v = Some t \<Longrightarrow> coerce (JString t) = coerce v"
  by (simp add: coerce_def)

section \<open>The classes under the \<^verbatim>\<open>i\<close> flag\<close>

lemma toUpper_other: "\<not> isLower ch \<Longrightarrow> toUpper ch = ch"
  by (cases ch) (simp add: toUpper_code)

lemma toUpper_lower: "isLower ch \<Longrightarrow> isUpper (toUpper ch)"
  by (cases ch) (simp add: toUpper_code isLower_code isUpper_code)

lemma toLower_other: "\<not> isUpper ch \<Longrightarrow> toLower ch = ch"
  by (cases ch) (simp add: toLower_code)

lemma toLower_upper: "isUpper ch \<Longrightarrow> isLower (toLower ch)"
  by (cases ch) (simp add: toLower_code isLower_code isUpper_code)

lemma toUpper_idem: "toUpper (toUpper ch) = toUpper ch"
  by (cases ch) (simp add: toUpper_code isLower_code)

lemma lower_not_upper: "isLower ch \<Longrightarrow> \<not> isUpper ch"
  by (cases ch) (simp add: isLower_code isUpper_code)

lemma isAlpha_not_other:
  "isAlpha ch \<Longrightarrow> \<not> isSpace ch \<and> \<not> isDigit ch \<and> ch \<notin> set ''._%+-:()@''"
  by (auto simp: isAlpha_def isLower_def isUpper_def isSpace_def isDigit_def)

lemmas case_facts = toUpper_other toUpper_lower toLower_other toLower_upper lower_not_upper

lemma clsI_isLower [simp]: "clsI isLower ch = isAlpha ch"
  by (cases "isLower ch"; cases "isUpper ch") (auto simp: clsI_def isAlpha_def case_facts)

lemma clsI_isUpper [simp]: "clsI isUpper ch = isAlpha ch"
  by (cases "isLower ch"; cases "isUpper ch") (auto simp: clsI_def isAlpha_def case_facts)

lemma clsI_isAlpha [simp]: "clsI isAlpha ch = isAlpha ch"
  by (cases "isLower ch"; cases "isUpper ch") (auto simp: clsI_def isAlpha_def case_facts)

lemma clsI_not_alpha: "(\<And>x. isAlpha x \<Longrightarrow> \<not> p x) \<Longrightarrow> clsI p ch = p ch"
  by (cases "isLower ch"; cases "isUpper ch") (auto simp: clsI_def isAlpha_def case_facts)

lemma clsI_isSpace [simp]: "clsI isSpace ch = isSpace ch"
  by (rule clsI_not_alpha) (simp add: isAlpha_not_other)

lemma clsI_isDigit [simp]: "clsI isDigit ch = isDigit ch"
  by (rule clsI_not_alpha) (simp add: isAlpha_not_other)

lemma clsI_isColonDash [simp]: "clsI isColonDash ch = isColonDash ch"
  by (rule clsI_not_alpha) (use isAlpha_not_other in \<open>auto simp: isColonDash_def\<close>)

lemma clsI_isSep [simp]: "clsI isSep ch = isSep ch"
  by (rule clsI_not_alpha) (use isAlpha_not_other in \<open>auto simp: isSep_def\<close>)

lemma clsI_isLocal [simp]: "clsI isLocal ch = isLocal ch"
  by (cases "isLower ch"; cases "isUpper ch") (auto simp: clsI_def isLocal_def case_facts)

lemma clsI_isDomain [simp]: "clsI isDomain ch = isDomain ch"
  by (cases "isLower ch"; cases "isUpper ch") (auto simp: clsI_def isDomain_def case_facts)

lemma clsI_isAny [simp]: "clsI isAny ch = True"
  by (simp add: clsI_def isAny_def)

lemma eqI_iff: "eqI a b \<longleftrightarrow> toUpper a = toUpper b"
  by (auto simp: eqI_def)

lemma toUpper_alpha: "isAlpha (toUpper ch) = isAlpha ch"
  by (cases "isLower ch"; cases "isUpper ch") (auto simp: isAlpha_def case_facts)


lemma clsI_fun [simp]:
  "clsI isLower = isAlpha" "clsI isUpper = isAlpha" "clsI isAlpha = isAlpha"
  "clsI isSpace = isSpace" "clsI isDigit = isDigit" "clsI isColonDash = isColonDash"
  "clsI isSep = isSep" "clsI isLocal = isLocal" "clsI isDomain = isDomain"
  by (rule ext, simp)+

section \<open>The first result of a match\<close>


lemma first_None_iff: "first r s c = None \<longleftrightarrow> rests r s = []"
  using m_Nil_iff [of r s c] by (cases "m r s c") (auto simp: first_def)

lemma first_exec:
  "first r s [] = Some y \<Longrightarrow>
     exec r s i = Some \<lparr>index = i, whole = take (length s - length (fst y)) s, groups = snd y\<rparr>"
  by (cases "m r s []") (auto simp: first_def exec.simps [of r s])

lemma first_Lit: "first (Lit w) s c = map_option (\<lambda>s'. (s', c)) (lit w s)"
  by (cases "lit w s") (auto simp: first_def)

lemma first_Seq:
  "first a s c = Some z \<Longrightarrow> first b (fst z) (snd z) = Some y \<Longrightarrow> first (Seq a b) s c = Some y"
  by (cases "m a s c"; cases "m b (fst z) (snd z)") (auto simp: first_def)

lemma first_Alt_l: "first a s c = Some y \<Longrightarrow> first (Alt a b) s c = Some y"
  by (cases "m a s c") (auto simp: first_def)

lemma first_Alt_r: "first a s c = None \<Longrightarrow> first (Alt a b) s c = first b s c"
  by (cases "m a s c") (auto simp: first_def)

lemma first_Grp:
  "first (Grp n r) s c =
     map_option (\<lambda>y. (fst y, (n, take (length s - length (fst y)) s) # snd y)) (first r s c)"
  by (cases "m r s c") (auto simp: first_def)

lemma m_max0 [simp]: "m (Rep mn (Some 0) g r) s c = [(s, c)]"
  by (subst m.simps(8)) simp

lemma m_opt:
  "m (opt r) s c = filter (\<lambda>y. length (fst y) < length s) (m r s c) @ [(s, c)]"
proof -
  have "concat (map (\<lambda>y. if length (fst y) < length s then [y] else []) ys)
        = filter (\<lambda>y. length (fst y) < length s) ys" for ys :: "(string \<times> caps) list"
    by (induction ys) auto
  then show ?thesis
    unfolding opt_def by (subst m.simps(8)) (simp cong: if_cong)
qed

lemma first_opt_some:
  "first r s c = Some z \<Longrightarrow> length (fst z) < length s \<Longrightarrow> first (opt r) s c = Some z"
  by (cases "m r s c") (auto simp: first_def m_opt)

lemma first_opt_none: "first r s c = None \<Longrightarrow> first (opt r) s c = Some (s, c)"
  by (cases "m r s c") (auto simp: first_def m_opt)

lemma m_star:
  "m (star r) s c =
     concat (map (\<lambda>y. if length (fst y) < length s then m (star r) (fst y) (snd y) else [])
                 (m r s c)) @ [(s, c)]"
  unfolding star_def by (subst m.simps(8)) (simp cong: if_cong)

lemma m_plus: "m (plus r) s c = concat (map (\<lambda>y. m (star r) (fst y) (snd y)) (m r s c))"
  unfolding star_def plus_def by (subst m.simps(8)) simp

lemma first_star_none: "first r s c = None \<Longrightarrow> first (star r) s c = Some (s, c)"
  by (cases "m r s c") (auto simp: first_def m_star [of r s])

lemma first_star_some:
  "first r s c = Some z \<Longrightarrow> length (fst z) < length s
   \<Longrightarrow> first (star r) (fst z) (snd z) = Some y \<Longrightarrow> first (star r) s c = Some y"
  by (cases "m r s c"; cases "m (star r) (fst z) (snd z)") (auto simp: first_def m_star [of r s])

lemma first_plus:
  "first r s c = Some z \<Longrightarrow> first (star r) (fst z) (snd z) = Some y
   \<Longrightarrow> first (plus r) s c = Some y"
  by (cases "m r s c"; cases "m (star r) (fst z) (snd z)") (auto simp: first_def m_plus)



lemma first_star_Cls: "first (star (Cls p)) s c = Some (dropWhile (clsI p) s, c)"
proof (induction s)
  case Nil
  show ?case by (simp add: first_def m_star)
next
  case (Cons x xs)
  then show ?case
    by (cases "m (star (Cls p)) xs c") (auto simp: first_def m_star [of _ "x # xs"])
qed

lemma first_plus_Cls:
  "first (plus (Cls p)) s c =
     (case s of [] \<Rightarrow> None | x # xs \<Rightarrow> if clsI p x then Some (dropWhile (clsI p) xs, c) else None)"
  using first_star_Cls [of p "tl s" c]
  by (cases s; cases "m (star (Cls p)) (tl s) c") (auto simp: first_def m_plus)

lemma first_Cls:
  "first (Cls p) s c = (case s of [] \<Rightarrow> None | x # xs \<Rightarrow> if clsI p x then Some (xs, c) else None)"
  by (cases s) (auto simp: first_def)

lemma rests_consumes:
  assumes "t \<in> set (rests r s)"
  shows "\<exists>u. s = u @ t \<and> (\<forall>ch\<in>set u. alpha r ch)"
proof -
  from assms obtain y where "y \<in> set (m r s [])" "fst y = t"
    unfolding fsts_m [of r s "[]", symmetric] by auto
  with m_consumes [of y r s "[]"] show ?thesis by auto
qed

lemma rests_spaces:
  assumes "t \<in> set (rests (plus (Cls isSpace)) s)"
  shows "dropWhile isSpace t = dropWhile isSpace s"
proof -
  from rests_consumes [OF assms] obtain u where "s = u @ t" "\<forall>ch\<in>set u. isSpace ch"
    by (auto simp: plus_def)
  then show ?thesis by simp
qed

lemma isSpace_not_alpha: "isSpace ch \<Longrightarrow> \<not> isAlpha ch"
  using isAlpha_not_other [of ch] by blast

lemma no_more_words:
  assumes "dropWhile isSpace s = [] \<or> \<not> isAlpha (hd (dropWhile isSpace s))"
  shows "first (Seq (plus (Cls isSpace)) (Seq (Cls isUpper) r)) s c = None"
proof -
  have "rests (Seq (Cls isUpper) r) t = []" if "t \<in> set (rests (plus (Cls isSpace)) s)" for t
  proof (cases t)
    case Nil
    then show ?thesis by simp
  next
    case (Cons x xs)
    have "\<not> isAlpha x"
    proof
      assume a: "isAlpha x"
      then have "dropWhile isSpace t = t"
        using Cons isSpace_not_alpha [of x] by auto
      with rests_spaces [OF that] Cons have eq: "dropWhile isSpace s = x # xs"
        by simp
      from assms a show False
        unfolding eq by simp
    qed
    with Cons show ?thesis by simp
  qed
  then show ?thesis
    by (simp add: first_None_iff)
qed

lemma trim_Jane: "trim ''Jane Doe'' = ''Jane Doe''"
  by code_simp






section \<open>Lemmas on the pattern for the e-mail address\<close>

























section \<open>Lemmas on the pattern for the name\<close>

lemma nameOf_label_at_start:
  assumes "dropWhile isSpace rest = [] \<or> \<not> isAlpha (hd (dropWhile isSpace rest))"
  shows "nameOf lib (''Name: Jane Doe'' @ rest) = Inr ''Jane Doe''"
proof -
  define X where "X = Seq (plus (Cls isSpace)) (Seq (Cls isUpper) (plus (Cls isLower)))"
  have rest: "dropWhile isAlpha rest = rest"
  proof (cases rest)
    case (Cons x xs)
    have "\<not> isAlpha x"
    proof
      assume a: "isAlpha x"
      then have eq: "dropWhile isSpace rest = x # xs"
        using Cons isSpace_not_alpha [of x] by auto
      from assms a show False
        unfolding eq by simp
    qed
    with Cons show ?thesis by simp
  qed simp
  have l: "first (opt (Grp 1 (alts [''Name'', ''NAME'']))) (''Name: Jane Doe'' @ rest) []
           = Some ('': Jane Doe'' @ rest, [(1, ''Name'')])"
    by (rule first_opt_some) (simp_all add: first_Grp first_Alt_l first_Lit eqI_def)
  have s1: "first (star (Cls isSpace)) ('': Jane Doe'' @ rest) c = Some ('': Jane Doe'' @ rest, c)" for c
    by (simp add: first_star_Cls isSpace_def)
  have c1: "first (opt (Cls isColonDash)) ('': Jane Doe'' @ rest) c = Some ('' Jane Doe'' @ rest, c)" for c
    by (rule first_opt_some) (simp_all add: first_Cls isColonDash_def)
  have s2: "first (star (Cls isSpace)) ('' Jane Doe'' @ rest) c = Some (''Jane Doe'' @ rest, c)" for c
    by (simp add: first_star_Cls isSpace_def)
  have w1: "first (Cls isUpper) (''Jane Doe'' @ rest) c = Some (''ane Doe'' @ rest, c)" for c
    by (simp add: first_Cls isAlpha_def isUpper_def)
  have w2: "first (plus (Cls isLower)) (''ane Doe'' @ rest) c = Some ('' Doe'' @ rest, c)" for c
    by (simp add: first_plus_Cls isAlpha_def isUpper_def isLower_def)
  have x1: "first (plus (Cls isSpace)) ('' Doe'' @ rest) c = Some (''Doe'' @ rest, c)" for c
    by (simp add: first_plus_Cls isSpace_def)
  have x2: "first (Cls isUpper) (''Doe'' @ rest) c = Some (''oe'' @ rest, c)" for c
    by (simp add: first_Cls isAlpha_def isUpper_def)
  have x3: "first (plus (Cls isLower)) (''oe'' @ rest) c = Some (rest, c)" for c
    by (simp add: first_plus_Cls isAlpha_def isUpper_def isLower_def rest)
  have x: "first X ('' Doe'' @ rest) c = Some (rest, c)" for c
    unfolding X_def
    by (rule first_Seq [OF x1], simp only: fst_conv snd_conv, rule first_Seq [OF x2],
        simp only: fst_conv snd_conv x3)
  have stop: "first (star X) rest c = Some (rest, c)" for c
    unfolding X_def by (rule first_star_none) (rule no_more_words [OF assms])
  have words: "first (plus X) ('' Doe'' @ rest) c = Some (rest, c)" for c
    by (rule first_plus [OF x]) (simp only: fst_conv snd_conv stop)
  have g2: "first (Grp 2 (seqs [Cls isUpper, plus (Cls isLower), plus X])) (''Jane Doe'' @ rest) c
            = Some (rest, (2, ''Jane Doe'') # c)" for c
  proof -
    have "first (seqs [Cls isUpper, plus (Cls isLower), plus X]) (''Jane Doe'' @ rest) c
          = Some (rest, c)"
      unfolding seqs.simps
      by (rule first_Seq [OF w1], simp only: fst_conv snd_conv, rule first_Seq [OF w2],
          simp only: fst_conv snd_conv words)
    then show ?thesis by (simp add: first_Grp)
  qed
  have "first nameRegex (''Name: Jane Doe'' @ rest) [] = Some (rest, [(2, ''Jane Doe''), (1, ''Name'')])"
    unfolding nameRegex_def seqs.simps X_def [symmetric]
    apply (rule first_Seq [OF l], simp only: fst_conv snd_conv)
    apply (rule first_Seq [OF s1], simp only: fst_conv snd_conv)
    apply (rule first_Seq [OF c1], simp only: fst_conv snd_conv)
    apply (rule first_Seq [OF s2], simp only: fst_conv snd_conv)
    apply (rule g2 [unfolded seqs.simps])
    done
  from first_exec [OF this, of 0] show ?thesis
    by (simp add: nameOf_def match_def grp_def trim_Jane)
qed

section \<open>Lemmas on the pattern for the telephone number\<close>

lemma m_other_group:
  "n \<notin> grps r \<Longrightarrow> y \<in> set (m r s c) \<Longrightarrow> map_of (snd y) n = map_of c n"
proof (induction r s c arbitrary: y rule: m.induct)
  case (1 w s c)
  then show ?case by (cases "lit w s") auto
next
  case (2 p s c)
  then show ?case by (cases s) (auto split: if_splits)
next
  case (3 a b s c)
  from "3.prems" obtain z where z: "z \<in> set (m a s c)" and y: "y \<in> set (m b (fst z) (snd z))"
    by auto
  from "3.prems"(1) have na: "n \<notin> grps a" and nb: "n \<notin> grps b" by auto
  from "3.IH"(1) [OF na z] "3.IH"(2) [OF z nb y] show ?case
    by simp
next
  case (4 a b s c)
  then show ?case by fastforce
next
  case (5 k r s c)
  from "5.prems" obtain z where z: "z \<in> set (m r s c)"
    and y: "snd y = (k, take (length s - length (fst z)) s) # snd z"
    by auto
  from "5.prems"(1) have "k \<noteq> n" and nr: "n \<notin> grps r" by auto
  with "5.IH" [OF nr z] y show ?case
    by auto
next
  case (6 r s c)
  then show ?case by (cases "m r s c") auto
next
  case (7 s c)
  then show ?case by (auto split: if_splits)
next
  case (8 mn mx g r s c)
  from "8.prems"(1) have nr: "n \<notin> grps r" and nR: "\<And>a b g'. n \<notin> grps (Rep a b g' r)" by auto
  show ?case
  proof (cases "mx = Some 0")
    case True
    with "8.prems" show ?thesis by (subst (asm) m.simps(8)) simp
  next
    case nz: False
    show ?thesis
    proof (cases "y = (s, c)")
      case True
      then show ?thesis by simp
    next
      case False
      with "8.prems" nz obtain z where z: "z \<in> set (m r s c)"
        and y: "y \<in> set (m (Rep (mn - 1) (map_option (\<lambda>k. k - 1) mx) g r) (fst z) (snd z))"
        and ok: "mn \<noteq> 0 \<or> length (fst z) < length s"
        by (subst (asm) m.simps(8)) (auto split: if_splits)
      from "8.IH"(1) [OF nz _ nr z] "8.IH"(3) [OF nz _ _ nr z] "8.IH"(5) [OF nz _ _ nr z]
      have n1: "map_of (snd z) n = map_of c n"
        by (cases "mn = 0"; cases g) blast+
      have "map_of (snd y) n = map_of (snd z) n"
      proof (cases "mn = 0")
        case True
        with ok have lt: "length (fst z) < length s" by simp
        from True y show ?thesis
          using "8.IH"(4) [OF nz _ _ z lt nR, of y] "8.IH"(6) [OF nz _ _ z lt nR, of y]
          by (cases g) auto
      next
        case False
        then show ?thesis
          using "8.IH"(2) [OF nz False z nR y] by simp
      qed
      with n1 show ?thesis by simp
    qed
  qed
qed


lemma list_all2_eqI_upper: "list_all2 eqI w u \<Longrightarrow> map toUpper w = map toUpper u"
  by (induction rule: list_all2_induct) (auto simp: eqI_iff)

lemma lit_prefix:
  "map toUpper w = map toUpper u \<Longrightarrow> lit (w @ w') (u @ s) = lit w' s"
  by (induction w arbitrary: u) (auto simp: eqI_iff)

lemma lit_same: "map toUpper w = map toUpper u \<Longrightarrow> lit w (u @ s) = Some s"
  using lit_prefix [of w u "[]" s] by simp

lemma lit_mismatch:
  "map toUpper u = x # xs \<Longrightarrow> toUpper a \<noteq> x \<Longrightarrow> lit (a # w) (u @ s) = None"
  by (cases u) (auto simp: eqI_iff)

lemma lit_None_I:
  "a \<in> set w \<Longrightarrow> \<forall>ch\<in>set s. \<not> eqI a ch \<Longrightarrow> lit w s = None"
proof (induction w arbitrary: s)
  case Nil
  then show ?case by simp
next
  case (Cons b w)
  show ?case
  proof (cases s)
    case Nil
    then show ?thesis by simp
  next
    case (Cons x t)
    show ?thesis
    proof (cases "eqI b x")
      case False
      with Cons show ?thesis by simp
    next
      case True
      with Cons.prems Cons have "a \<noteq> b" by auto
      with Cons.prems have "a \<in> set w" by simp
      from Cons.IH [OF this, of t] Cons.prems(2) Cons True show ?thesis
        by simp
    qed
  qed
qed

lemma eqI_not_alpha: "\<not> isAlpha a \<Longrightarrow> eqI a ch \<Longrightarrow> ch = a"
proof -
  assume a: "\<not> isAlpha a" and e: "eqI a ch"
  from a have ua: "toUpper a = a" by (simp add: isAlpha_def toUpper_other)
  from e have eq: "toUpper ch = a" by (simp add: eqI_iff ua)
  have "\<not> isLower ch"
  proof
    assume "isLower ch"
    then have "isUpper (toUpper ch)" by (rule toUpper_lower)
    with eq a show False by (simp add: isAlpha_def)
  qed
  with eq show ?thesis by (simp add: toUpper_other)
qed

lemma isPhoneChar_not_alpha: "isPhoneChar ch \<Longrightarrow> \<not> isAlpha ch"
  using isAlpha_not_other [of ch] by (auto simp: isPhoneChar_def)

lemma alpha_not_eqI: "isAlpha a \<Longrightarrow> \<not> isAlpha ch \<Longrightarrow> \<not> eqI a ch"
proof
  assume a: "isAlpha a" and c: "\<not> isAlpha ch" and e: "eqI a ch"
  from c have "toUpper ch = ch" by (simp add: isAlpha_def toUpper_other)
  with e have "toUpper a = ch" by (simp add: eqI_iff)
  with toUpper_alpha [of a] a c show False by simp
qed

lemma alpha_phone:
  assumes "alpha (seqs [star (Cls isSpace), opt (Cls isColonDash), star (Cls isSpace), phoneCore 2]) ch"
  shows "isPhoneChar ch"
proof -
  have na: "\<not> isAlpha CHR ''+''" "\<not> isAlpha CHR ''(''" "\<not> isAlpha CHR '')''"
    by (simp_all add: isAlpha_def isLower_def isUpper_def)
  from assms eqI_not_alpha [OF na(1), of ch] eqI_not_alpha [OF na(2), of ch]
    eqI_not_alpha [OF na(3), of ch]
  show ?thesis
    by (auto simp: phoneCore_def star_def opt_def exactly_def isPhoneChar_def isSep_def
        isColonDash_def)
qed


lemma upper_labels:
  "map toUpper ''Phone Number'' = ''PHONE NUMBER''" "map toUpper ''Phone number'' = ''PHONE NUMBER''"
  "map toUpper ''Contact Number'' = ''CONTACT NUMBER''"
  "map toUpper ''Contact number'' = ''CONTACT NUMBER''"
  "map toUpper ''Contact'' = ''CONTACT''" "map toUpper ''CONTACT'' = ''CONTACT''"
  "map toUpper ''Phone'' = ''PHONE''" "map toUpper ''PHONE'' = ''PHONE''"
  by code_simp+

lemma upper_initials:
  "toUpper CHR ''P'' = CHR ''P''" "toUpper CHR ''C'' = CHR ''C''"
  by code_simp+

lemma m_alts_D:
  "ws \<noteq> [] \<Longrightarrow> z \<in> set (m (alts ws) t c) \<Longrightarrow> \<exists>w\<in>set ws. lit w t = Some (fst z) \<and> snd z = c"
proof (induction ws rule: alts.induct)
  case 1
  then show ?case by simp
next
  case (2 w)
  then show ?case by (cases "lit w t") auto
next
  case (3 w v ws)
  from "3.prems"(2) have "z \<in> set (m (Lit w) t c) \<or> z \<in> set (m (alts (v # ws)) t c)"
    by simp
  then show ?case
  proof
    assume "z \<in> set (m (Lit w) t c)"
    then show ?thesis by (cases "lit w t") auto
  next
    assume "z \<in> set (m (alts (v # ws)) t c)"
    from "3.IH" [OF _ this] show ?thesis by auto
  qed
qed

lemma upper_phoneLabels:
  "\<forall>w\<in>set [''Phone Number'', ''Phone number'', ''Contact Number'', ''Contact number'',
             ''Contact'', ''CONTACT'', ''Phone'', ''PHONE''].
     map toUpper w \<in> set [''PHONE NUMBER'', ''CONTACT NUMBER'', ''CONTACT'', ''PHONE'']"
  by code_simp

lemma m_phoneLabels_D:
  assumes "z \<in> set (m phoneLabels t c)"
  shows "\<exists>u. t = u @ fst z \<and> snd z = c
           \<and> map toUpper u \<in> set [''PHONE NUMBER'', ''CONTACT NUMBER'', ''CONTACT'', ''PHONE'']"
proof -
  from m_alts_D [OF _ assms [unfolded phoneLabels_def]]
  obtain w where w: "w \<in> set [''Phone Number'', ''Phone number'', ''Contact Number'',
      ''Contact number'', ''Contact'', ''CONTACT'', ''Phone'', ''PHONE'']"
    and l: "lit w t = Some (fst z)" and c: "snd z = c"
    by blast
  from lit_consumes [OF l] obtain u where u: "t = u @ fst z" "list_all2 eqI w u"
    by blast
  from upper_phoneLabels w have
    "map toUpper w \<in> set [''PHONE NUMBER'', ''CONTACT NUMBER'', ''CONTACT'', ''PHONE'']"
    by (rule bspec)
  with list_all2_eqI_upper [OF u(2)] u(1) c show ?thesis by metis
qed

lemma phone_labeled_D:
  assumes mt: "match text phoneRegex = Some pm" and g: "grp pm 1 = Some label"
  shows "\<exists>rest. whole pm = label @ rest \<and> (\<forall>ch\<in>set rest. isPhoneChar ch)
           \<and> map toUpper label \<in> set [''PHONE NUMBER'', ''CONTACT NUMBER'', ''CONTACT'', ''PHONE'']"
proof -
  define A where "A = opt (Grp 1 phoneLabels)"
  define R where "R = seqs [star (Cls isSpace), opt (Cls isColonDash), star (Cls isSpace), phoneCore 2]"
  have pr: "phoneRegex = Seq A R"
    by (simp add: phoneRegex_def A_def R_def)
  have nR: "1 \<notin> grps R"
    by (simp add: R_def phoneCore_def star_def opt_def exactly_def)
  from exec_Some_D [OF mt [unfolded match_def]] obtain p t y ys where
    "text = p @ t" and y: "m phoneRegex t [] = y # ys" and w: "whole pm = take (length t - length (fst y)) t"
    and gs: "groups pm = snd y"
    by blast
  from y have "y \<in> set (m (Seq A R) t [])" by (simp add: pr)
  then obtain z where z: "z \<in> set (m A t [])" and yz: "y \<in> set (m R (fst z) (snd z))"
    by auto
  from m_other_group [OF nR yz] g gs have g1: "map_of (snd z) 1 = Some label"
    by (simp add: grp_def)
  from z have "z = (t, []) \<or> z \<in> set (m (Grp 1 phoneLabels) t [])"
    by (auto simp: A_def m_opt)
  with g1 have "z \<in> set (m (Grp 1 phoneLabels) t [])" by auto
  then obtain z0 where z0: "z0 \<in> set (m phoneLabels t [])"
    and zz: "z = (fst z0, (1, take (length t - length (fst z0)) t) # snd z0)"
    by auto
  from m_phoneLabels_D [OF z0] obtain u where u: "t = u @ fst z0" "snd z0 = []"
    and up: "map toUpper u \<in> set [''PHONE NUMBER'', ''CONTACT NUMBER'', ''CONTACT'', ''PHONE'']"
    by blast
  from g1 zz u have lab: "label = u" by simp
  from m_consumes [OF yz] obtain r where r: "fst z = r @ fst y" "\<forall>ch\<in>set r. alpha R ch"
    by blast
  from r(1) zz u(1) lab have t: "t = label @ r @ fst y" by simp
  have "whole pm = label @ r" unfolding w t by simp
  moreover have "\<forall>ch\<in>set r. isPhoneChar ch"
    using r(2) alpha_phone unfolding R_def by blast
  ultimately show ?thesis using up lab by blast
qed

lemma first_Alt_Lit:
  "first (Alt (Lit w) b) s c = (case lit w s of None \<Rightarrow> first b s c | Some s' \<Rightarrow> Some (s', c))"
  by (cases "lit w s") (simp_all add: first_Alt_l first_Alt_r first_Lit)

lemma first_phoneLabels:
  assumes U: "map toUpper label \<in> set [''PHONE NUMBER'', ''CONTACT NUMBER'', ''CONTACT'', ''PHONE'']"
    and R: "\<forall>ch\<in>set rest. isPhoneChar ch"
  shows "first phoneLabels (label @ rest) c = Some (rest, c)"
proof -
  have nN: "\<forall>ch\<in>set rest. \<not> eqI CHR ''N'' ch" and nn: "\<forall>ch\<in>set rest. \<not> eqI CHR ''n'' ch"
    using R isPhoneChar_not_alpha alpha_not_eqI
    by (auto simp: isAlpha_def isLower_def isUpper_def)
  have tail: "lit '' Number'' rest = None" "lit '' number'' rest = None"
    using lit_None_I [OF _ nN, of "'' Number''"] lit_None_I [OF _ nn, of "'' number''"] by simp_all
  have longer: "lit (w @ '' Number'') (label @ rest) = None"
    "lit (w @ '' number'') (label @ rest) = None" if "map toUpper w = map toUpper label" for w
    using lit_prefix [OF that] tail by simp_all
  have same: "lit w (label @ rest) = Some rest" if "map toUpper w = map toUpper label" for w
    using that by (rule lit_same)
  have other: "lit (a # w) (label @ rest) = None"
    if "map toUpper label = x # xs" "toUpper a \<noteq> x" for a w x xs
    using that by (rule lit_mismatch)
  from U consider (pn) "map toUpper label = ''PHONE NUMBER''"
    | (cn) "map toUpper label = ''CONTACT NUMBER''"
    | (c) "map toUpper label = ''CONTACT''"
    | (p) "map toUpper label = ''PHONE''"
    by auto
  then show ?thesis
  proof cases
    case pn
    have "lit ''Phone Number'' (label @ rest) = Some rest"
      by (rule same) (simp only: upper_labels pn)
    then show ?thesis
      by (simp add: phoneLabels_def first_Alt_Lit)
  next
    case cn
    have "lit ''Phone Number'' (label @ rest) = None" "lit ''Phone number'' (label @ rest) = None"
      by (rule other [OF cn], simp add: upper_initials)+
    moreover have "lit ''Contact Number'' (label @ rest) = Some rest"
      by (rule same) (simp only: upper_labels cn)
    ultimately show ?thesis
      by (simp add: phoneLabels_def first_Alt_Lit)
  next
    case c
    have "lit ''Phone Number'' (label @ rest) = None" "lit ''Phone number'' (label @ rest) = None"
      by (rule other [OF c], simp add: upper_initials)+
    moreover have "lit (''Contact'' @ '' Number'') (label @ rest) = None"
      "lit (''Contact'' @ '' number'') (label @ rest) = None"
      by (rule longer, simp only: upper_labels c)+
    moreover have "lit ''Contact'' (label @ rest) = Some rest"
      by (rule same) (simp only: upper_labels c)
    ultimately show ?thesis
      by (simp add: phoneLabels_def first_Alt_Lit)
  next
    case p
    have "lit (''Phone'' @ '' Number'') (label @ rest) = None"
      "lit (''Phone'' @ '' number'') (label @ rest) = None"
      by (rule longer, simp only: upper_labels p)+
    moreover have "lit ''Contact Number'' (label @ rest) = None"
      "lit ''Contact number'' (label @ rest) = None"
      "lit ''Contact'' (label @ rest) = None" "lit ''CONTACT'' (label @ rest) = None"
      by (rule other [OF p], simp add: upper_initials)+
    moreover have "lit ''Phone'' (label @ rest) = Some rest"
      by (rule same) (simp only: upper_labels p)
    ultimately show ?thesis
      by (simp add: phoneLabels_def first_Alt_Lit first_Lit)
  qed
qed


lemma first_opt_colon:
  "first (opt (Cls isColonDash)) rest c = Some (afterLabel rest, c)"
proof (cases rest)
  case Nil
  then show ?thesis by (simp add: first_opt_none first_Cls afterLabel_def)
next
  case (Cons x xs)
  show ?thesis
  proof (cases "isColonDash x")
    case True
    with Cons have "first (Cls isColonDash) rest c = Some (xs, c)" by (simp add: first_Cls)
    from first_opt_some [OF this] Cons True show ?thesis by (simp add: afterLabel_def)
  next
    case False
    with Cons show ?thesis by (simp add: first_opt_none first_Cls afterLabel_def)
  qed
qed

lemma suffix_afterLabel: "suffix (dropWhile isSpace (afterLabel rest)) rest"
proof -
  have "suffix (afterLabel rest) rest"
    by (cases rest) (auto simp: afterLabel_def suffix_Cons)
  with suffix_dropWhile [of isSpace "afterLabel rest"] show ?thesis
    by (rule suffix_order.trans)
qed

lemma replace_label:
  assumes U: "map toUpper label \<in> set [''PHONE NUMBER'', ''CONTACT NUMBER'', ''CONTACT'', ''PHONE'']"
    and R: "\<forall>ch\<in>set rest. isPhoneChar ch"
  shows "replace (label @ rest) phoneLabelRegex = dropWhile isSpace (afterLabel rest)"
proof -
  define r where "r = dropWhile isSpace (afterLabel rest)"
  have g: "first (Grp 1 phoneLabels) (label @ rest) [] = Some (rest, [(1, label)])"
    by (simp add: first_Grp first_phoneLabels [OF U R])
  have t: "first (Seq (opt (Cls isColonDash)) (star (Cls isSpace))) rest c = Some (r, c)" for c
    by (rule first_Seq [OF first_opt_colon]) (simp add: first_star_Cls r_def)
  have "first phoneLabelRegex (label @ rest) [] = Some (r, [(1, label)])"
    unfolding phoneLabelRegex_def seqs.simps
    by (rule first_Seq [OF g]) (simp only: fst_conv snd_conv t)
  from first_exec [OF this, of 0]
  have ex: "match (label @ rest) phoneLabelRegex
        = Some \<lparr>index = 0, whole = take (length (label @ rest) - length r) (label @ rest),
                groups = [(1, label)]\<rparr>"
    by (simp add: match_def)
  from suffix_afterLabel [of rest] obtain q where q: "rest = q @ r"
    by (auto simp: suffix_def r_def)
  have "label @ rest = (label @ q) @ r" by (simp add: q)
  then show ?thesis
    unfolding replace_def ex r_def [symmetric] by simp
qed

lemma trim_dropWhile: "trim (dropWhile isSpace s) = trim s"
  by (simp add: trim_def)

lemma set_trim: "set (trim s) \<subseteq> set s"
proof
  fix ch assume "ch \<in> set (trim s)"
  then have "ch \<in> set (dropWhile isSpace (rev (dropWhile isSpace s)))"
    by (simp add: trim_def)
  then have "ch \<in> set (dropWhile isSpace s)"
    by (auto dest: set_dropWhileD)
  then show "ch \<in> set s" by (rule set_dropWhileD)
qed

lemma set_afterLabel: "set (afterLabel s) \<subseteq> set s"
  by (cases s) (auto simp: afterLabel_def)

lemma phoneOf_labeled:
  assumes mt: "match text phoneRegex = Some pm" and g: "grp pm 1 = Some label"
  shows "\<exists>rest. whole pm = label @ rest
           \<and> map toUpper label \<in> set [''PHONE NUMBER'', ''CONTACT NUMBER'', ''CONTACT'', ''PHONE'']
           \<and> phoneOf text = Inr (trim (afterLabel rest))
           \<and> (\<forall>ch\<in>set (trim (afterLabel rest)). isPhoneChar ch)"
proof -
  from phone_labeled_D [OF mt g] obtain rest where w: "whole pm = label @ rest"
    and R: "\<forall>ch\<in>set rest. isPhoneChar ch"
    and U: "map toUpper label \<in> set [''PHONE NUMBER'', ''CONTACT NUMBER'', ''CONTACT'', ''PHONE'']"
    by blast
  have "phoneOf text = Inr (trim (afterLabel rest))"
    by (simp add: phoneOf_def mt w replace_label [OF U R] trim_dropWhile)
  moreover have "\<forall>ch\<in>set (trim (afterLabel rest)). isPhoneChar ch"
    using R set_trim [of "afterLabel rest"] set_afterLabel [of rest] by blast
  ultimately show ?thesis using w U by blast
qed

section \<open>Deduplication in the order of first occurrence\<close>

lemma set_setAdd: "set (setAdd acc xs) = set acc \<union> set xs"
  by (induction xs arbitrary: acc) auto

lemma distinct_setAdd: "distinct acc \<Longrightarrow> distinct (setAdd acc xs)"
  by (induction xs arbitrary: acc) auto

lemma setAdd_firstOccurrences:
  "setAdd acc xs =
     acc @ map (\<lambda>i. xs ! i) (filter (\<lambda>i. xs ! i \<notin> set acc \<union> set (take i xs)) [0..<length xs])"
proof (induction xs arbitrary: acc)
  case Nil
  show ?case by simp
next
  case (Cons x xs)
  define acc' where "acc' = (if x \<in> set acc then acc else acc @ [x])"
  define P where "P = (\<lambda>i. xs ! i \<notin> set acc' \<union> set (take i xs))"
  define Q where "Q = (\<lambda>i. (x # xs) ! i \<notin> set acc \<union> set (take i (x # xs)))"
  have upt: "[0..<length (x # xs)] = 0 # map Suc [0..<length xs]"
    by (simp add: upt_conv_Cons map_Suc_upt del: upt_Suc)
  have PQ: "Q (Suc i) = P i" for i
    by (auto simp: P_def Q_def acc'_def)
  have tl: "map ((!) (x # xs)) (filter Q (map Suc [0..<length xs])) = map ((!) xs) (filter P [0..<length xs])"
    by (simp add: filter_map comp_def PQ)
  have "setAdd acc (x # xs) = acc' @ map ((!) xs) (filter P [0..<length xs])"
    using Cons.IH [of acc'] by (simp add: acc'_def P_def)
  also have "acc' = acc @ map ((!) (x # xs)) (filter Q [0])"
    by (simp add: Q_def acc'_def)
  also have "map ((!) xs) (filter P [0..<length xs])
             = map ((!) (x # xs)) (filter Q (map Suc [0..<length xs]))"
    by (rule tl [symmetric])
  also have "(acc @ map ((!) (x # xs)) (filter Q [0]))
               @ map ((!) (x # xs)) (filter Q (map Suc [0..<length xs]))
             = acc @ map ((!) (x # xs)) (filter Q (0 # map Suc [0..<length xs]))"
    by simp
  finally show ?case
    unfolding upt Q_def .
qed

lemma uniq_firstOccurrences: "uniq xs = firstOccurrences xs"
  by (simp add: uniq_def firstOccurrences_def setAdd_firstOccurrences)

lemma distinct_uniq: "distinct (uniq xs)"
  by (simp add: uniq_def distinct_setAdd)

lemma set_uniq: "set (uniq xs) = set xs"
  by (simp add: uniq_def set_setAdd)

lemma uniq_Nil_iff: "uniq xs = [] \<longleftrightarrow> xs = []"
  using set_uniq [of xs] by (metis set_empty)

lemma section_deduplicates:
  assumes "matches = out_array lib tag (coerce v) @ out_array lib vocabulary (coerce v)"
    and "matches \<noteq> []"
  shows "extractSection tag vocabulary regex lib v = Inr (uniq matches)
       \<and> distinct (uniq matches)
       \<and> set (uniq matches) = set matches
       \<and> uniq matches = firstOccurrences matches"
  using assms
  by (auto simp add: extractSection_def Let_def uniq_Nil_iff distinct_uniq set_uniq
      uniq_firstOccurrences [symmetric])

text \<open>
  C9. Let \<open>extract\<close> be \<^const>\<open>extractEducation\<close>, \<^const>\<open>extractSkills\<close> or \<^const>\<open>extractProjects\<close>, with
  its entity tag and its vocabulary. When the tagged entities together with the vocabulary
  matches are not empty, \<open>extract\<close> returns that match list without duplicates, with the same
  elements, each at the place of its first occurrence.
\<close>

theorem tier1_deduplicates:
  assumes "(extract, tag, vocabulary)
             \<in> {(extractEducation, ''#Education'', educationVocabulary),
                (extractSkills, ''#Skill'', skillsVocabulary),
                (extractProjects, ''#Project'', projectsVocabulary)}"
    and "matches = out_array lib tag (coerce v) @ out_array lib vocabulary (coerce v)"
    and "matches \<noteq> []"
  shows "extract lib v = Inr (uniq matches)
       \<and> distinct (uniq matches)
       \<and> set (uniq matches) = set matches
       \<and> uniq matches = firstOccurrences matches"
proof -
  have "extract lib v = Inr (uniq matches)"
    using assms(1) section_deduplicates [OF assms(2,3), of educationRegex]
      section_deduplicates [OF assms(2,3), of skillsRegex]
      section_deduplicates [OF assms(2,3), of projectsRegex]
    by (auto simp: extractEducation_def extractSkills_def extractProjects_def)
  then show ?thesis
    using distinct_uniq [of matches] set_uniq [of matches] uniq_firstOccurrences [of matches]
    by simp
qed

theorem tier1_deduplicates_witness:
  "out_array headerTagger ''#Education'' (coerce (JString ''Education''))
     @ out_array headerTagger educationVocabulary (coerce (JString ''Education''))
     = [''Education'', ''Education'']
   \<and> [''Education'', ''Education''] \<noteq> ([] :: string list)
   \<and> extractEducation headerTagger (JString ''Education'') = Inr [''Education'']
   \<and> extractSkills headerTagger (JString ''Education'') = Inr [''Education'']
   \<and> extractProjects headerTagger (JString ''Education'') = Inr [''Education'']"
  using
    tier1_deduplicates [of extractEducation "''#Education''" educationVocabulary
      "[''Education'', ''Education'']" headerTagger "JString ''Education''"]
    tier1_deduplicates [of extractSkills "''#Skill''" skillsVocabulary
      "[''Education'', ''Education'']" headerTagger "JString ''Education''"]
    tier1_deduplicates [of extractProjects "''#Project''" projectsVocabulary
      "[''Education'', ''Education'']" headerTagger "JString ''Education''"]
  by (simp add: headerTagger_def uniq_def)

section \<open>The handler and the file format\<close>

lemma split_not_Nil: "split d s \<noteq> []"
  by (induction s) (auto split: list.splits)

lemma split_no_separator: "d \<notin> set s \<Longrightarrow> split d s = [s]"
  by (induction s) auto

lemma last_split_append: "last (split d (a @ d # b)) = last (split d b)"
proof (induction a)
  case Nil
  show ?case using split_not_Nil [of d b] by simp
next
  case (Cons x a)
  obtain y ys where sp: "split d (a @ d # b) = y # ys"
    using split_not_Nil [of d "a @ d # b"] by (cases "split d (a @ d # b)") auto
  show ?case
  proof (cases "x = d")
    case True
    then show ?thesis using Cons sp by simp
  next
    case False
    have "ys \<noteq> []"
    proof
      assume "ys = []"
      with sp have "split d (a @ d # b) = [y]" by simp
      then show False
        by (induction a arbitrary: y) (auto simp: split_not_Nil split: if_splits list.splits)
    qed
    then show ?thesis using Cons sp False by simp
  qed
qed

lemma last_split:
  "last (split CHR ''.'' filename)
     = (case suffixAfterFinalDot filename of None \<Rightarrow> filename | Some e \<Rightarrow> e)"
proof (cases "CHR ''.'' \<in> set filename")
  case False
  then show ?thesis by (simp add: suffixAfterFinalDot_def split_no_separator)
next
  case True
  then obtain a b where ab: "filename = a @ CHR ''.'' # b" "CHR ''.'' \<notin> set b"
    by (auto dest: split_list_last)
  then have "rev (takeWhile (\<lambda>ch. ch \<noteq> CHR ''.'') (rev filename)) = b"
    by (simp add: takeWhile_append)
  with True ab show ?thesis
    by (simp add: suffixAfterFinalDot_def last_split_append split_no_separator del: rev_append)
qed

text \<open>
  C3, as the code has it. A file name without a dot has no suffix after a final dot, and so
  no extension that is \<^verbatim>\<open>pdf\<close> or \<^verbatim>\<open>docx\<close>; but \<^verbatim>\<open>split('.').pop()\<close> of such a name is the whole
  name. A file named \<^verbatim>\<open>pdf\<close> is handed to the PDF parser, its text goes through the
  inference functions, and the submission is accepted.
\<close>

theorem dotless_name_is_parsed:
  "suffixAfterFinalDot ''pdf'' = None
   \<and> submit readingServices (janeRequest ''pdf'')
       = (\<lparr>status = 200, message = ''Application submitted successfully!''\<rparr>,
          [ParsePdf ''not a document'', Infer ''Jane Doe'', Upload ''pdf'',
           Store [''Jane Doe'', ''jane.doe@example.com'', ''555-123-4567'',
                  ''https://bucket.s3.amazonaws.com/pdf'', [], [], []],
           Mail ''jane.doe@example.com'',
           Hook ''jane.doe@example.com''
             \<lparr>name = ''Jane Doe'', email = ''jane.doe@example.com'', phone = ''555-123-4567''\<rparr>
             ''https://bucket.s3.amazonaws.com/pdf''])"
  by code_simp

text \<open>
  C3, amended. When the suffix of the file name after its final dot, or the whole name when
  it has no dot, is neither \<^verbatim>\<open>pdf\<close> nor \<^verbatim>\<open>docx\<close>, the handler throws the unsupported-format
  error before any parser or inference function is called, logs it and answers with the
  failure response; no collaborator is called.
\<close>

theorem unsupported_extension_rejected:
  assumes "(case suffixAfterFinalDot (originalname (req_file rq)) of
              None \<Rightarrow> originalname (req_file rq) | Some e \<Rightarrow> e) \<notin> {''pdf'', ''docx''}"
  shows "readText sv (req_file rq) = (Inl UnsupportedFormat, [])
       \<and> submit sv rq = (failed, [Log UnsupportedFormat])
       \<and> status (fst (submit sv rq)) = 500"
  using assms unfolding last_split [symmetric]
  by (simp add: readText_def submit_def Let_def failed_def)

theorem unsupported_extension_rejected_witness:
  "(case suffixAfterFinalDot (originalname (req_file (janeRequest ''cv.txt''))) of
      None \<Rightarrow> originalname (req_file (janeRequest ''cv.txt'')) | Some e \<Rightarrow> e) \<notin> {''pdf'', ''docx''}
   \<and> suffixAfterFinalDot ''cv.txt'' = Some ''txt''
   \<and> submit readingServices (janeRequest ''cv.txt'') = (failed, [Log UnsupportedFormat])"
  using unsupported_extension_rejected [of "janeRequest ''cv.txt''" readingServices]
  by (simp add: janeRequest_def suffixAfterFinalDot_def)

text \<open>
  C1. The helper \<^const>\<open>extractTextFromPDF\<close> turns a parse failure into the empty text, but
  the handler does not call it: it calls the parser itself, so for a file named
  \<^verbatim>\<open>cv.pdf\<close> whose bytes the parser rejects the error reaches the handler's \<^verbatim>\<open>catch\<close>; the
  answer is the failure response and nothing is inferred, stored, mailed or forwarded.
\<close>

theorem corrupt_pdf_fails_submission:
  "submit (sv\<lparr>pdf := \<lambda>b. Inl ParseFailure\<rparr>)
          (rq\<lparr>req_file := \<lparr>originalname = ''cv.pdf'', buffer = bs\<rparr>\<rparr>)
     = (failed, [ParsePdf bs, Log ParseFailure])
   \<and> extractTextFromPDF (\<lambda>path. Inr bs) (\<lambda>b. Inl ParseFailure) ''cv.pdf'' = []"
  by (simp add: submit_def readText_def Let_def extractTextFromPDF_def)

section \<open>The telephone number\<close>

text \<open>
  C10. The pattern of the fallback is the pattern of the first attempt without its optional
  label, separators and colon, so wherever the fallback pattern matches the first pattern
  matches as well: the \<^verbatim>\<open>else\<close> branch finds nothing whenever it runs, and the telephone
  number always comes from the first match.
\<close>

theorem phone_fallback_unreachable:
  "(match text phoneFallbackRegex \<noteq> None \<longrightarrow> match text phoneRegex \<noteq> None)
   \<and> phoneOf text =
       (case match text phoneRegex of
          Some phoneMatch \<Rightarrow> Inr (trim (replace (whole phoneMatch) phoneLabelRegex))
        | None \<Rightarrow> Inr [])"
  using phone_primary_covers [of "text"]
  by (auto simp: phoneOf_def split: option.splits)


theorem phone_fallback_unreachable_witness:
  "match ''5551234567'' phoneFallbackRegex \<noteq> None \<and> match ''5551234567'' phoneRegex \<noteq> None"
proof -
  have h: "match ''5551234567'' phoneFallbackRegex \<noteq> None"
    by code_simp
  with phone_fallback_unreachable [of "''5551234567''"] show ?thesis
    by blast
qed

text \<open>
  C5. When the first pattern matches with its label group set, the label is one of
  \<^verbatim>\<open>Phone\<close>, \<^verbatim>\<open>Phone Number\<close>, \<^verbatim>\<open>Contact\<close>, \<^verbatim>\<open>Contact Number\<close> in some mixture of cases, the
  matched value is the label followed by a rest, and the telephone number that is returned
  is that rest without the label: a colon or dash directly behind the label is removed and
  the result is trimmed. Every character of the number is a digit, white space or one of
  \<^verbatim>\<open>+ - . ( ) :\<close>, and none is a letter. When neither pattern matches anywhere in the text,
  the telephone number is the empty string.
\<close>

theorem phone_label_stripped:
  "(match text phoneRegex = Some pm \<and> grp pm 1 = Some label \<longrightarrow>
      (\<exists>rest n e.
          whole pm = label @ rest
        \<and> map toUpper label \<in> set [''PHONE NUMBER'', ''CONTACT NUMBER'', ''CONTACT'', ''PHONE'']
        \<and> extractPersonalInfo lib (JString text)
            = Inr \<lparr>name = n, email = e, phone = trim (afterLabel rest)\<rparr>
        \<and> (\<forall>ch\<in>set (trim (afterLabel rest)). isPhoneChar ch \<and> \<not> isAlpha ch)))
   \<and> (match text phoneRegex = None \<and> match text phoneFallbackRegex = None \<longrightarrow>
      (\<exists>n e. extractPersonalInfo lib (JString text) = Inr \<lparr>name = n, email = e, phone = []\<rparr>))"
proof (intro conjI impI)
  assume "match text phoneRegex = Some pm \<and> grp pm 1 = Some label"
  then have mt: "match text phoneRegex = Some pm" and g: "grp pm 1 = Some label" by simp_all
  from phoneOf_labeled [OF mt g] obtain rest where r: "whole pm = label @ rest"
    "map toUpper label \<in> set [''PHONE NUMBER'', ''CONTACT NUMBER'', ''CONTACT'', ''PHONE'']"
    "phoneOf text = Inr (trim (afterLabel rest))"
    "\<forall>ch\<in>set (trim (afterLabel rest)). isPhoneChar ch"
    by blast
  from extractPersonalInfo_total [of "JString text" "text" lib] r(3)
  obtain n e where "extractPersonalInfo lib (JString text)
      = Inr \<lparr>name = n, email = e, phone = trim (afterLabel rest)\<rparr>"
    by (auto simp: coerce_def)
  with r isPhoneChar_not_alpha show "\<exists>rest n e.
          whole pm = label @ rest
        \<and> map toUpper label \<in> set [''PHONE NUMBER'', ''CONTACT NUMBER'', ''CONTACT'', ''PHONE'']
        \<and> extractPersonalInfo lib (JString text)
            = Inr \<lparr>name = n, email = e, phone = trim (afterLabel rest)\<rparr>
        \<and> (\<forall>ch\<in>set (trim (afterLabel rest)). isPhoneChar ch \<and> \<not> isAlpha ch)"
    by blast
next
  assume "match text phoneRegex = None \<and> match text phoneFallbackRegex = None"
  then have "phoneOf text = Inr []" by (simp add: phoneOf_def)
  with extractPersonalInfo_total [of "JString text" "text" lib]
  show "\<exists>n e. extractPersonalInfo lib (JString text) = Inr \<lparr>name = n, email = e, phone = []\<rparr>"
    by (auto simp: coerce_def)
qed

theorem phone_label_stripped_witness:
  "match ''Phone: 555-123-4567'' phoneRegex
     = Some \<lparr>index = 0, whole = ''Phone: 555-123-4567'', groups = [(1, ''Phone'')]\<rparr>
   \<and> grp \<lparr>index = 0, whole = ''Phone: 555-123-4567'', groups = [(1, ''Phone'')]\<rparr> 1 = Some ''Phone''
   \<and> (\<exists>n e. extractPersonalInfo noTagger (JString ''Phone: 555-123-4567'')
               = Inr \<lparr>name = n, email = e, phone = ''555-123-4567''\<rparr>)
   \<and> match ''no number'' phoneRegex = None
   \<and> match ''no number'' phoneFallbackRegex = None
   \<and> (\<exists>n e. extractPersonalInfo noTagger (JString ''no number'')
               = Inr \<lparr>name = n, email = e, phone = []\<rparr>)"
proof -
  define pm where "pm = \<lparr>index = 0, whole = ''Phone: 555-123-4567'', groups = [(1, ''Phone'')]\<rparr>"
  have h1: "match ''Phone: 555-123-4567'' phoneRegex = Some pm"
    unfolding pm_def by code_simp
  have h2: "grp pm 1 = Some ''Phone''"
    by (simp add: pm_def grp_def)
  have h3: "match ''no number'' phoneRegex = None"
    by code_simp
  have h4: "match ''no number'' phoneFallbackRegex = None"
    by code_simp
  have t: "trim (afterLabel '': 555-123-4567'') = ''555-123-4567''"
    by code_simp
  from phone_label_stripped [of "''Phone: 555-123-4567''" pm "''Phone''" noTagger] h1 h2
  obtain rest n e where "whole pm = ''Phone'' @ rest"
    and "extractPersonalInfo noTagger (JString ''Phone: 555-123-4567'')
           = Inr \<lparr>name = n, email = e, phone = trim (afterLabel rest)\<rparr>"
    by blast
  then have a: "\<exists>n e. extractPersonalInfo noTagger (JString ''Phone: 555-123-4567'')
               = Inr \<lparr>name = n, email = e, phone = ''555-123-4567''\<rparr>"
    using t by (auto simp: pm_def)
  from phone_label_stripped [of "''no number''" _ _ noTagger] h3 h4
  have b: "\<exists>n e. extractPersonalInfo noTagger (JString ''no number'')
               = Inr \<lparr>name = n, email = e, phone = []\<rparr>"
    by blast
  from h1 h2 h3 h4 a b show ?thesis
    unfolding pm_def by blast
qed

section \<open>Section headers\<close>

text \<open>
  C2. On the text of the specification's example, with a tagger that finds nothing, the
  alternative \<^verbatim>\<open>Skill\<close> of the header group matches before \<^verbatim>\<open>Skills\<close> is tried, so the
  \<^verbatim>\<open>s\<close> of the header is captured as the first line of the section.
\<close>

theorem skills_header_leaks:
  "extractSkills noTagger (JString ''Skills\<newline>Python\<newline>Go\<newline>Education\<newline>BSc'')
     = Inr [''s'', ''Python'', ''Go'']"
  by code_simp

section \<open>The name\<close>

text \<open>
  C7. The pattern for the name is matched with the \<^verbatim>\<open>i\<close> flag, so \<^verbatim>\<open>[A-Z][a-z]+\<close> accepts
  words in lower case: on a text without label, without two capitalised words and without
  person entity the pattern still matches, and the name is the two words, not the trimmed
  first line \<^verbatim>\<open>1. hello world\<close>.
\<close>

theorem lowercase_words_taken_as_name:
  "extractPersonalInfo noTagger (JString ''1. hello world'')
     = Inr \<lparr>name = ''hello world'', email = [], phone = []\<rparr>"
  by code_simp

section \<open>Arguments that are not strings\<close>

text \<open>
  C8, as the code has it. For \<^verbatim>\<open>null\<close> the text is the JSON text \<^verbatim>\<open>null\<close> and the name
  is that text, not the empty string.
\<close>

theorem null_is_named_null:
  "extractPersonalInfo noTagger JNull = Inr \<lparr>name = ''null'', email = [], phone = []\<rparr>"
  by code_simp

text \<open>
  C8, amended. For every argument that the coercion turns into a text (every string, and
  every value for which \<^verbatim>\<open>JSON.stringify\<close> returns a string), each inference function
  returns what it returns on that text, and none of them raises.
\<close>

theorem coerced_inference:
  assumes "coerce v = Some t"
  shows "extractPersonalInfo lib v = extractPersonalInfo lib (JString t)
       \<and> extractEducation lib v = extractEducation lib (JString t)
       \<and> extractSkills lib v = extractSkills lib (JString t)
       \<and> extractProjects lib v = extractProjects lib (JString t)
       \<and> (\<exists>r. extractPersonalInfo lib v = Inr r)
       \<and> (\<exists>r. extractEducation lib v = Inr r)
       \<and> (\<exists>r. extractSkills lib v = Inr r)
       \<and> (\<exists>r. extractProjects lib v = Inr r)"
proof -
  have c: "coerce (JString t) = coerce v"
    using assms by (rule coerce_string)
  have "binds 2 educationRegex" "binds 2 skillsRegex" "binds 2 projectsRegex"
    by (simp_all add: educationRegex_def skillsRegex_def projectsRegex_def)
  with assms extractPersonalInfo_total [OF assms, of lib] show ?thesis
    using extractSection_total [OF assms]
    by (auto simp: extractPersonalInfo_def extractSection_def extractEducation_def
        extractSkills_def extractProjects_def c Let_def)
qed


theorem coerced_inference_witness:
  "coerce (JObject [(''a'', JNull)]) = Some (''{'' @ [CHR 0x22] @ ''a'' @ [CHR 0x22] @ '':null}'')
   \<and> extractPersonalInfo noTagger (JObject [(''a'', JNull)])
       = extractPersonalInfo noTagger (JString (''{'' @ [CHR 0x22] @ ''a'' @ [CHR 0x22] @ '':null}''))"
proof -
  have h: "coerce (JObject [(''a'', JNull)]) = Some (''{'' @ [CHR 0x22] @ ''a'' @ [CHR 0x22] @ '':null}'')"
    by (simp add: coerce_def quote_def quoteChar_def)
  from coerced_inference [OF h, of noTagger] h show ?thesis
    by blast
qed

section \<open>The labeled name\<close>

text \<open>
  C6. The pattern of \<^verbatim>\<open>server.js\<close> does not capture the remainder of the labeled line: the
  words of the name are separated by \<^verbatim>\<open>\s+\<close>, which matches a line break, and under the \<^verbatim>\<open>i\<close>
  flag the classes accept letters of either case. On a text whose first line is
  \<^verbatim>\<open>Name: Jane Doe\<close> and whose second line starts with a word, the name that is returned
  runs over the end of the labeled line. (The earlier versions of the function kept in the
  repository capture \<^verbatim>\<open>(.*)\<close> after the label, which stops at the end of the line.)
\<close>

theorem name_runs_over_line:
  "extractPersonalInfo noTagger (JString ''Name: Jane Doe\<newline>Email: jane.doe@example.com'')
     = Inr \<lparr>name = ''Jane Doe\<newline>Email'', email = ''jane.doe@example.com'', phone = []\<rparr>"
  by code_simp

section \<open>The e-mail address\<close>




end
